theory Spec2Isabelle
  imports Main "HOL-Library.Sublist"
begin

section \<open>The Router of pynektools/comm/router.py\<close>

text \<open>
  The Router moves flat numeric buffers between the \<open>P\<close> ranks of an MPI communicator.
  All ranks call a method together, each with its own arguments. The embedding
  evaluates a method for one rank in a \<^emph>\<open>world\<close>: the list of the arguments that the
  ranks \<open>0 .. P-1\<close> pass to the same call, and what the communicator holds.

  \<^item> An ndarray is the list of its elements in flattened order: \<open>.size\<close> is \<open>length\<close>
    and \<open>.flatten()\<close> is the identity.
  \<^item> Counts (\<open>np.ulong\<close>) are natural numbers: a count is the size of an array in
    memory, which is below \<open>2^64\<close>.
  \<^item> A rank, a destination and a tag are natural numbers; negative indices are not
    modelled.
  \<^item> A call either returns, raises a Python exception, or never returns because a
    collective, a send or a receive it waits for is never completed by the peers.
\<close>

datatype exn =
    IndexError | TypeError | AttributeError | OverflowError
  | NameError string | ValueError string | MPIError

datatype failure = Raised exn | Blocked

record router =
  destination_count :: "nat list"
  source_count :: "nat list"

definition init_router :: "nat \<Rightarrow> router" where
  "init_router P = \<lparr>destination_count = replicate P 0, source_count = replicate P 0\<rparr>"

subsection \<open>Collectives of the communicator\<close>

text \<open>
  \<open>allgather\<close> and \<open>Alltoall\<close> complete on a rank only when every rank has reached
  them. A rank that raised before contributes \<open>None\<close>.
\<close>

fun all_reached :: "'b option list \<Rightarrow> 'b list option" where
  "all_reached [] = Some []"
| "all_reached (None # xs) = None"
| "all_reached (Some x # xs) = (case all_reached xs of None \<Rightarrow> None | Some ys \<Rightarrow> Some (x # ys))"

text \<open>Displacements of a vector collective called with counts only: the prefix sums.\<close>

definition displs :: "nat list \<Rightarrow> nat \<Rightarrow> nat" where
  "displs counts r = sum_list (take r counts)"

definition write_at :: "'a list \<Rightarrow> nat \<Rightarrow> 'a list \<Rightarrow> 'a list" where
  "write_at buf off xs = take off buf @ xs @ drop (off + length xs) buf"

text \<open>
  \<open>Gatherv\<close> at the root: the block of rank \<open>r\<close> is written at displacement
  \<open>displs counts r\<close> of the receive buffer, for \<open>r = 0 .. P-1\<close>.
\<close>

fun Gatherv_blocks :: "nat list \<Rightarrow> 'a list list \<Rightarrow> nat list \<Rightarrow> 'a list \<Rightarrow> 'a list" where
  "Gatherv_blocks counts datas [] buf = buf"
| "Gatherv_blocks counts datas (r # rs) buf =
     Gatherv_blocks counts datas rs (write_at buf (displs counts r) (datas ! r))"

definition Gatherv :: "nat list \<Rightarrow> 'a list list \<Rightarrow> 'a list \<Rightarrow> 'a list" where
  "Gatherv counts datas recvbuf = Gatherv_blocks counts datas [0..<length datas] recvbuf"

text \<open>
  \<open>Scatterv\<close>: rank \<open>r\<close> is sent the \<open>counts ! r\<close> elements of the root's buffer that
  start at displacement \<open>displs counts r\<close>. The size of the buffer is not checked
  against the counts: a cell beyond the end of the buffer is read from whatever memory
  follows it, and its value is left unspecified here (\<open>sendbuf ! i\<close> out of range).
\<close>

definition Scatterv_block :: "'a list \<Rightarrow> nat list \<Rightarrow> nat \<Rightarrow> 'a list" where
  "Scatterv_block sendbuf counts r =
     map (\<lambda>i. sendbuf ! i) [displs counts r ..< displs counts r + counts ! r]"

text \<open>
  A message of \<open>n\<close> elements received into a buffer: it fills the first \<open>n\<close> cells;
  a message longer than the buffer is an MPI truncation error.
\<close>

definition receive_into :: "'a list \<Rightarrow> 'a list \<Rightarrow> failure + 'a list" where
  "receive_into buf msg =
     (if length msg > length buf then Inl (Raised MPIError)
      else Inr (msg @ drop (length msg) buf))"

subsection \<open>gather\_in\_root\<close>

text \<open>
  World of a gather: the \<open>data\<close> argument of every rank (\<open>None\<close> is Python's \<open>None\<close>,
  the default) and the \<open>root\<close> argument, which MPI requires to be the same on all ranks.
  \<open>data.size\<close> raises AttributeError on \<open>None\<close>. \<open>np.empty\<close> leaves the content of
  the receive buffer unspecified; the model starts from zeros.
\<close>

definition gather_in_root ::
  "router \<Rightarrow> ('a::zero) list option list \<Rightarrow> nat \<Rightarrow> nat
     \<Rightarrow> router \<times> (failure + 'a list option \<times> nat list)" where
  "gather_in_root self datas root rank =
     (case datas ! rank of
        None \<Rightarrow> (self, Inl (Raised AttributeError))
      | Some data \<Rightarrow>
          (case all_reached datas of
             None \<Rightarrow> (self, Inl Blocked)
           | Some all_data \<Rightarrow>
               (let sendcounts = map length all_data;
                    recvbuf = (if rank = root then Some (replicate (sum_list sendcounts) 0)
                               else None)
                in if root \<ge> length datas then (self, Inl (Raised MPIError))
                   else (case recvbuf of
                           None \<Rightarrow> (self, Inr (None, sendcounts))
                         | Some buf \<Rightarrow>
                             (self, Inr (Some (Gatherv sendcounts all_data buf),
                                         sendcounts))))))"

subsection \<open>scatter\_from\_root\<close>

text \<open>
  The \<open>dtype\<close> argument of a scatter, by the kind of numbers it holds. It is taken to
  be the dtype of the root's buffer.
\<close>

datatype dtype = Floating | Signed | Unsigned

text \<open>
  Line 288, \<open>np.ones(n, dtype=dtype) * -100\<close>: for a floating or signed integer dtype
  an array of \<open>n\<close> elements \<open>-100\<close>. For an unsigned dtype \<open>-100\<close> is out of bounds and
  the product raises OverflowError (NumPy 2; NumPy 1 returns an array of another,
  wider dtype instead). The boolean dtype, for which the product is an integer array,
  is not modelled.
\<close>

definition ones_times_minus_100 :: "dtype \<Rightarrow> nat \<Rightarrow> exn + ('a::ring_1) list" where
  "ones_times_minus_100 dt n =
     (case dt of
        Floating \<Rightarrow> Inr (replicate n (1 * (- 100)))
      | Signed \<Rightarrow> Inr (replicate n (1 * (- 100)))
      | Unsigned \<Rightarrow> Inl OverflowError)"

text \<open>
  World of a scatter: the triple (\<open>data\<close>, \<open>sendcounts\<close>, \<open>dtype\<close>) of every rank, and
  the common \<open>root\<close>. The part of the method before \<open>Scatterv\<close> is local to the rank
  (lines 276-288): it yields the send buffer (root only), the count vector the rank uses
  and its receive buffer.
\<close>

type_synonym 'a scatter_args = "'a list option \<times> nat list option \<times> dtype"

definition scatter_sendcounts ::
  "nat \<Rightarrow> 'a list option \<Rightarrow> nat list option \<Rightarrow> exn + nat list" where
  "scatter_sendcounts P data sendcounts =
     (case sendcounts of
        Some c \<Rightarrow> Inr c
      | None \<Rightarrow> (case data of
                   None \<Rightarrow> Inl AttributeError
                 | Some a \<Rightarrow> Inr (replicate P (length a div P))))"

definition scatter_local ::
  "nat \<Rightarrow> nat \<Rightarrow> nat \<Rightarrow> ('a::ring_1) scatter_args
     \<Rightarrow> exn + ('a list option \<times> nat list \<times> 'a list)" where
  "scatter_local P root rank arg =
     (case arg of (data, sendcounts, dt) \<Rightarrow>
        (case (if rank = root then
                 (case scatter_sendcounts P data sendcounts of
                    Inl e \<Rightarrow> Inl e
                  | Inr c \<Rightarrow> (case data of
                               None \<Rightarrow> Inl AttributeError
                             | Some a \<Rightarrow> Inr (Some c, Some a)))
               else Inr (sendcounts, None)) of
           Inl e \<Rightarrow> Inl e
         | Inr (sendcounts', sendbuf) \<Rightarrow>
             (case sendcounts' of
                None \<Rightarrow> Inl TypeError
              | Some c \<Rightarrow>
                  if rank \<ge> length c then Inl IndexError
                  else (case ones_times_minus_100 dt (c ! rank) of
                          Inl e \<Rightarrow> Inl e
                        | Inr recvbuf \<Rightarrow> Inr (sendbuf, c, recvbuf)))))"

text \<open>
  \<open>Scatterv\<close> (line 290) checks the root argument on every rank. The root hands out
  the blocks and returns with its own block, whether or not the other ranks take
  part; its count vector must have one entry per rank, or mpi4py raises ValueError
  (the string stands for its message). Another rank receives its block from the root:
  it waits for ever when the root raised before or in \<open>Scatterv\<close>.
\<close>

definition scatter_from_root ::
  "router \<Rightarrow> ('a::ring_1) scatter_args list \<Rightarrow> nat \<Rightarrow> nat
     \<Rightarrow> router \<times> (failure + 'a list)" where
  "scatter_from_root self args root rank =
     (let P = length args in
      case scatter_local P root rank (args ! rank) of
        Inl e \<Rightarrow> (self, Inl (Raised e))
      | Inr (sendbuf, sendcounts, recvbuf) \<Rightarrow>
          if root \<ge> P then (self, Inl (Raised MPIError))
          else (case scatter_local P root root (args ! root) of
                  Inl e \<Rightarrow> (self, Inl Blocked)
                | Inr (None, root_counts, b) \<Rightarrow> (self, Inl Blocked)
                | Inr (Some root_buf, root_counts, b) \<Rightarrow>
                    if length root_counts = P
                    then (self, receive_into recvbuf (Scatterv_block root_buf root_counts rank))
                    else (self, Inl (if rank = root
                                     then Raised (ValueError ''expecting one count per rank'')
                                     else Blocked))))"

subsection \<open>send\_recv\<close>

text \<open>
  The \<open>data\<close> argument of \<open>send_recv\<close> is a Python list of arrays, one per destination,
  or a single array sent to every destination (\<open>isinstance(data, list)\<close>).
\<close>

datatype 'a payload = DataList "'a list list" | DataArray "'a list"

text \<open>
  World of a distribute: the triple (\<open>destination\<close>, \<open>data\<close>, \<open>tag\<close>) of every rank, the
  messages that are in flight on the communicator when the call starts, and the eager
  limit of the MPI library.
\<close>

type_synonym 'a send_args = "nat list \<times> 'a payload \<times> nat"

text \<open>A message in flight: source, destination, tag and elements.\<close>

type_synonym 'a message = "nat \<times> nat \<times> nat \<times> 'a list"

text \<open>
  Lines 143-144: the loop over \<open>enumerate(destination)\<close>. Both \<open>data[dest_ind]\<close> and
  the store at \<open>dest\<close> raise IndexError out of range; the entries written before stay.
\<close>

fun fill_list :: "nat list \<Rightarrow> 'a list list \<Rightarrow> nat \<Rightarrow> nat list \<Rightarrow> nat list \<times> exn option" where
  "fill_list [] data dest_ind count = (count, None)"
| "fill_list (dest # rest) data dest_ind count =
     (if dest_ind \<ge> length data then (count, Some IndexError)
      else if dest \<ge> length count then (count, Some IndexError)
      else fill_list rest data (Suc dest_ind) (count[dest := length (data ! dest_ind)]))"

text \<open>
  Line 147: the store through a list of indices. numpy checks every index before it
  writes.
\<close>

definition fill_all :: "nat list \<Rightarrow> nat \<Rightarrow> nat list \<Rightarrow> nat list \<times> exn option" where
  "fill_all destination n count =
     (if list_all (\<lambda>dest. dest < length count) destination
      then (fold (\<lambda>dest c. c[dest := n]) destination count, None)
      else (count, Some IndexError))"

definition fill_destination_count :: "router \<Rightarrow> 'a send_args \<Rightarrow> nat list \<times> exn option" where
  "fill_destination_count self arg =
     (case arg of (destination, data, tag) \<Rightarrow>
        (let count = replicate (length (destination_count self)) 0
         in case data of
              DataList xs \<Rightarrow> fill_list destination xs 0 count
            | DataArray a \<Rightarrow> fill_all destination (length a) count))"

definition filled :: "nat list \<times> exn option \<Rightarrow> nat list option" where
  "filled x = (case x of (count, None) \<Rightarrow> Some count | (count, Some e) \<Rightarrow> None)"

text \<open>\<open>Alltoall\<close> of one count per rank: rank \<open>r\<close> receives entry \<open>r\<close> of every send buffer.\<close>

definition Alltoall :: "nat list list \<Rightarrow> nat \<Rightarrow> nat list" where
  "Alltoall sendbufs r = map (\<lambda>sendbuf. sendbuf ! r) sendbufs"

text \<open>Line 154: \<open>np.where(source_count != 0)[0]\<close>.\<close>

definition where_nonzero :: "nat list \<Rightarrow> nat list" where
  "where_nonzero count = filter (\<lambda>i. count ! i \<noteq> 0) [0..<length count]"

text \<open>
  Lines 174-183: the messages a rank sends, in the order of its sends, each with its
  destination.
\<close>

fun send_list :: "nat list \<Rightarrow> 'a list list \<Rightarrow> nat \<Rightarrow> (nat \<times> 'a list) list" where
  "send_list [] data dest_ind = []"
| "send_list (dest # rest) data dest_ind = (dest, data ! dest_ind) # send_list rest data (Suc dest_ind)"

fun send_same :: "nat list \<Rightarrow> 'a list \<Rightarrow> (nat \<times> 'a list) list" where
  "send_same [] data = []"
| "send_same (dest # rest) data = (dest, data) # send_same rest data"

definition sends :: "'a send_args \<Rightarrow> (nat \<times> 'a list) list" where
  "sends arg =
     (case arg of (destination, data, tag) \<Rightarrow>
        (case data of
           DataList xs \<Rightarrow> send_list destination xs 0
         | DataArray a \<Rightarrow> send_same destination a))"

text \<open>
  Message matching. The messages from \<open>s\<close> to \<open>d\<close> with tag \<open>t\<close> are received in the
  order they were sent. Rank \<open>d\<close> posts one receive for source \<open>s\<close>, with its own tag,
  when the count it got from \<open>s\<close> is not 0; this count is entry \<open>d\<close> of the count table
  of \<open>s\<close>. The receive takes the first message of the channel: one that was in flight
  when the call started, or else the first that \<open>s\<close> sends in this call. \<open>takes\<close> says
  that the receive of \<open>dest\<close> is there for the first message that \<open>s\<close> sends to it.
\<close>

definition channel :: "'a message list \<Rightarrow> nat \<Rightarrow> nat \<Rightarrow> nat \<Rightarrow> 'a list list" where
  "channel net s d t =
     map (\<lambda>m. snd (snd (snd m)))
       (filter (\<lambda>m. fst m = s \<and> fst (snd m) = d \<and> fst (snd (snd m)) = t) net)"

definition takes :: "'a message list \<Rightarrow> 'a send_args list \<Rightarrow> nat list \<Rightarrow> nat \<Rightarrow> nat \<Rightarrow> bool" where
  "takes net args count s dest \<longleftrightarrow>
     dest < length args \<and> count ! dest \<noteq> 0
     \<and> snd (snd (args ! dest)) = snd (snd (args ! s))
     \<and> channel net s dest (snd (snd (args ! s))) = []"

text \<open>
  Lines 174-183, \<open>Isend\<close> followed by \<open>wait\<close>: the wait returns when a receive takes
  the message, or when the message has at most \<open>eager\<close> elements and the communicator
  buffers it. Otherwise the wait never returns and the later sends are not made. The
  loop yields the messages whose send completed and the message it is blocked on.
  \<open>seen\<close> are the destinations already sent to in this call.
\<close>

fun send_loop ::
  "(nat \<Rightarrow> bool) \<Rightarrow> nat \<Rightarrow> (nat \<times> 'a list) list \<Rightarrow> nat list
     \<Rightarrow> (nat \<times> 'a list) list \<times> (nat \<times> 'a list) option" where
  "send_loop taken eager [] seen = ([], None)"
| "send_loop taken eager (m # rest) seen =
     (if length (snd m) \<le> eager \<or> (taken (fst m) \<and> list_all (\<lambda>d. d \<noteq> fst m) seen)
      then (case send_loop taken eager rest (fst m # seen) of
              (issued, blocked) \<Rightarrow> (m # issued, blocked))
      else ([], Some m))"

definition issue ::
  "nat \<Rightarrow> 'a message list \<Rightarrow> router list \<Rightarrow> 'a send_args list \<Rightarrow> nat
     \<Rightarrow> (nat \<times> 'a list) list \<times> (nat \<times> 'a list) option" where
  "issue eager net routers args s =
     send_loop (takes net args (fst (fill_destination_count (routers ! s) (args ! s))) s)
       eager (sends (args ! s)) []"

text \<open>What the receive of rank \<open>r\<close> for source \<open>s\<close> gets, if anything.\<close>

definition inbox ::
  "nat \<Rightarrow> 'a message list \<Rightarrow> router list \<Rightarrow> 'a send_args list \<Rightarrow> nat \<Rightarrow> nat
     \<Rightarrow> 'a list option" where
  "inbox eager net routers args r s =
     (case channel net s r (snd (snd (args ! r)))
           @ (if snd (snd (args ! s)) = snd (snd (args ! r))
              then map snd (filter (\<lambda>m. fst m = r) (fst (issue eager net routers args s)))
              else []) of
        [] \<Rightarrow> None
      | msg # later \<Rightarrow> Some msg)"

text \<open>
  Lines 186-187: the receives are awaited in the order they were posted. A receive
  without a matching message never completes.
\<close>

fun wait_all :: "(nat \<Rightarrow> 'a list option) \<Rightarrow> nat list \<Rightarrow> 'a list list \<Rightarrow> failure + 'a list list" where
  "wait_all box (source # sources) (buf # bufs) =
     (case box source of
        None \<Rightarrow> Inl Blocked
      | Some msg \<Rightarrow>
          (case receive_into buf msg of
             Inl f \<Rightarrow> Inl f
           | Inr buf' \<Rightarrow>
               (case wait_all box sources bufs of
                  Inl f \<Rightarrow> Inl f
                | Inr bufs' \<Rightarrow> Inr (buf' # bufs'))))"
| "wait_all box sources bufs = Inr []"

text \<open>
  \<open>send_recv\<close> for one rank of the world. Lines 139-147 fill \<open>destination_count\<close>;
  an IndexError leaves the entries written so far. Lines 152-153 zero \<open>source_count\<close>
  and exchange the counts, which needs every rank to have filled its own. Lines 154-161
  find the sources and allocate a zeroed buffer per source. Lines 168-171 post the
  receives, lines 174-183 send, lines 186-187 wait for the receives.
\<close>

definition send_recv ::
  "nat \<Rightarrow> 'a message list \<Rightarrow> router list \<Rightarrow> ('a::zero) send_args list \<Rightarrow> nat
     \<Rightarrow> router \<times> (failure + nat list \<times> 'a list list)" where
  "send_recv eager net routers args rank =
     (let self = routers ! rank in
      case fill_destination_count self (args ! rank) of
        (count, Some e) \<Rightarrow> (self\<lparr>destination_count := count\<rparr>, Inl (Raised e))
      | (count, None) \<Rightarrow>
          (let self1 = self\<lparr>destination_count := count,
                            source_count := replicate (length (source_count self)) 0\<rparr>
           in case all_reached (map (\<lambda>(r, a). filled (fill_destination_count r a))
                                    (zip routers args)) of
                None \<Rightarrow> (self1, Inl Blocked)
              | Some sendbufs \<Rightarrow>
                  (let self2 = self1\<lparr>source_count := Alltoall sendbufs rank\<rparr>;
                       sources = where_nonzero (source_count self2);
                       recvbuff = map (\<lambda>source. replicate (source_count self2 ! source) 0) sources
                   in case snd (issue eager net routers args rank) of
                        Some m \<Rightarrow> (self2, Inl Blocked)
                      | None \<Rightarrow>
                          (case wait_all (inbox eager net routers args rank) sources recvbuff of
                             Inl f \<Rightarrow> (self2, Inl f)
                           | Inr recvbuff' \<Rightarrow> (self2, Inr (sources, recvbuff'))))))"

text \<open>
  The messages in flight after the call. When the counts were exchanged, every rank
  has posted its receives and made the sends that \<open>issue\<close> gives; each posted receive
  has taken the first message of its channel, if there is one.
\<close>

fun take_first :: "nat \<times> nat \<times> nat \<Rightarrow> 'a message list \<Rightarrow> 'a message list" where
  "take_first c [] = []"
| "take_first c (m # net) =
     (if (fst m, fst (snd m), fst (snd (snd m))) = c then net else m # take_first c net)"

definition in_flight_after ::
  "nat \<Rightarrow> 'a message list \<Rightarrow> router list \<Rightarrow> 'a send_args list \<Rightarrow> 'a message list" where
  "in_flight_after eager net routers args =
     (case all_reached (map (\<lambda>(r, a). filled (fill_destination_count r a))
                            (zip routers args)) of
        None \<Rightarrow> net
      | Some sendbufs \<Rightarrow>
          (let ranks = [0..<length sendbufs];
               sent = concat (map (\<lambda>s. map (\<lambda>m. (s, fst m, snd (snd (args ! s)), snd m))
                                          (fst (issue eager net routers args s))) ranks);
               posted = concat (map (\<lambda>r. map (\<lambda>s. (s, r, snd (snd (args ! r))))
                                            (where_nonzero (Alltoall sendbufs r))) ranks)
           in fold take_first posted (net @ sent)))"






subsection \<open>route\_data\<close>

text \<open>
  All ranks call \<open>route_data\<close> with the same keyword and with keyword arguments of the
  same names. The world records which names are given: those of a distribute
  (\<open>destination\<close>, \<open>data\<close>, \<open>tag\<close>; with them the state of the communicator), of a
  gather (\<open>data\<close>, \<open>root\<close>) or of a scatter (\<open>data\<close>, \<open>sendcounts\<close>, \<open>dtype\<close>, \<open>root\<close>).
  A method called with a name that is not one of its parameters raises TypeError before
  its body runs; \<open>scatter_from_root\<close> accepts the names of a gather and takes
  \<open>sendcounts\<close> and \<open>dtype\<close> as \<open>None\<close>, for which \<open>np.ones\<close> makes a floating array.

  Line 86 formats the message of the ValueError from \<open>method_keyword\<close>, a name that is
  bound nowhere in the module: evaluating it raises NameError.
\<close>

datatype 'a world =
    Distribute_world nat "'a message list" "'a send_args list"
  | Gather_world "'a list option list" nat
  | Scatter_world "'a scatter_args list" nat

datatype 'a result =
    Distributed "nat list" "'a list list"
  | Gathered "'a list option" "nat list"
  | Scattered "'a list"

definition lift_result :: "('b \<Rightarrow> 'c) \<Rightarrow> router \<times> (failure + 'b) \<Rightarrow> router \<times> (failure + 'c)" where
  "lift_result f x = (case x of (self, Inl e) \<Rightarrow> (self, Inl e) | (self, Inr v) \<Rightarrow> (self, Inr (f v)))"

definition route_data ::
  "router list \<Rightarrow> string \<Rightarrow> ('a::ring_1) world \<Rightarrow> nat \<Rightarrow> router \<times> (failure + 'a result)" where
  "route_data routers keyword kwargs rank =
     (let self = routers ! rank in
      if keyword \<notin> set [''distribute'', ''gather'', ''scatter'']
      then (self, Inl (Raised (NameError ''method_keyword'')))
      else if keyword = ''distribute'' then
        (case kwargs of
           Distribute_world eager net args \<Rightarrow>
             lift_result (\<lambda>(sources, recvbuff). Distributed sources recvbuff)
               (send_recv eager net routers args rank)
         | Gather_world datas root \<Rightarrow> (self, Inl (Raised TypeError))
         | Scatter_world args root \<Rightarrow> (self, Inl (Raised TypeError)))
      else if keyword = ''gather'' then
        (case kwargs of
           Distribute_world eager net args \<Rightarrow> (self, Inl (Raised TypeError))
         | Gather_world datas root \<Rightarrow>
             lift_result (\<lambda>(recvbuf, sendcounts). Gathered recvbuf sendcounts)
               (gather_in_root self datas root rank)
         | Scatter_world args root \<Rightarrow> (self, Inl (Raised TypeError)))
      else
        (case kwargs of
           Distribute_world eager net args \<Rightarrow> (self, Inl (Raised TypeError))
         | Gather_world datas root \<Rightarrow>
             lift_result Scattered
               (scatter_from_root self (map (\<lambda>data. (data, None, Floating)) datas) root rank)
         | Scatter_world args root \<Rightarrow>
             lift_result Scattered (scatter_from_root self args root rank)))"

subsection \<open>Notions used in the statements\<close>

text \<open>Every Router of the world was built by \<open>__init__\<close> on the communicator of \<open>P\<close> ranks.\<close>

definition wf_router :: "nat \<Rightarrow> router \<Rightarrow> bool" where
  "wf_router P self \<longleftrightarrow> length (destination_count self) = P \<and> length (source_count self) = P"

definition wf_routers :: "nat \<Rightarrow> router list \<Rightarrow> bool" where
  "wf_routers P routers \<longleftrightarrow> length routers = P \<and> list_all (wf_router P) routers"

text \<open>The number of elements that rank \<open>s\<close> sends to rank \<open>r\<close> in a distribute.\<close>

definition sent_elements :: "'a send_args list \<Rightarrow> nat \<Rightarrow> nat \<Rightarrow> nat" where
  "sent_elements args s r =
     sum_list (map (\<lambda>m. length (snd m)) (filter (\<lambda>m. fst m = r) (sends (args ! s))))"

text \<open>The value a call returned, if it returned.\<close>

definition returned :: "router \<times> (failure + 'b) \<Rightarrow> 'b option" where
  "returned x = (case snd x of Inl f \<Rightarrow> None | Inr v \<Rightarrow> Some v)"

text \<open>
  The arguments of a rank in a distribute are valid for \<open>P\<close> ranks when the destinations
  are ranks of the communicator and a payload list has a payload for every destination.
\<close>

definition valid_send_args :: "nat \<Rightarrow> 'a send_args \<Rightarrow> bool" where
  "valid_send_args P arg =
     (case arg of (destination, data, tag) \<Rightarrow>
        list_all (\<lambda>dest. dest < P) destination \<and>
        (case data of DataList xs \<Rightarrow> length destination \<le> length xs | DataArray a \<Rightarrow> True))"

text \<open>No message with tag \<open>t\<close> is in flight.\<close>

definition quiet :: "'a message list \<Rightarrow> nat \<Rightarrow> bool" where
  "quiet net t = list_all (\<lambda>m. fst (snd (snd m)) \<noteq> t) net"

text \<open>The same destinations and payloads, sent with the tag \<open>t\<close>.\<close>

definition retag :: "nat \<Rightarrow> 'a send_args list \<Rightarrow> 'a send_args list" where
  "retag t args = map (\<lambda>a. (fst a, fst (snd a), t)) args"


section \<open>Properties\<close>

subsection \<open>Collectives\<close>

lemma all_reached_map_Some: "all_reached (map Some xs) = Some xs"
  by (induction xs) auto

lemma all_reached_Some_comp: "all_reached (map (\<lambda>r. Some (f r)) xs) = Some (map f xs)"
  by (induction xs) auto

lemma Gatherv_blocks_append:
  "Gatherv_blocks c d (xs @ ys) buf = Gatherv_blocks c d ys (Gatherv_blocks c d xs buf)"
  by (induction xs arbitrary: buf) auto

lemma displs_lengths: "displs (map length ds) k = length (concat (take k ds))"
  by (simp add: displs_def length_concat take_map)

text \<open>After the blocks of the ranks below \<open>k\<close>, the buffer starts with their data.\<close>

lemma Gatherv_prefix:
  "k \<le> length ds \<Longrightarrow> length buf = sum_list (map length ds) \<Longrightarrow>
   Gatherv_blocks (map length ds) ds [0..<k] buf
     = concat (take k ds) @ drop (length (concat (take k ds))) buf"
proof (induction k)
  case 0
  then show ?case by simp
next
  case (Suc k)
  let ?A = "concat (take k ds)"
  have k: "k < length ds" using Suc.prems by simp
  have tk: "take (Suc k) ds = take k ds @ [ds ! k]"
    using k by (simp add: take_Suc_conv_app_nth)
  have "Gatherv_blocks (map length ds) ds [0..<Suc k] buf
        = write_at (?A @ drop (length ?A) buf) (length ?A) (ds ! k)"
    using Suc by (simp add: Gatherv_blocks_append displs_lengths)
  also have "\<dots> = ?A @ ds ! k @ drop (length ?A + length (ds ! k)) buf"
    by (simp add: write_at_def add.commute)
  finally show ?case by (simp add: tk)
qed

lemma Gatherv_concat:
  "length buf = sum_list (map length ds) \<Longrightarrow> Gatherv (map length ds) ds buf = concat ds"
  using Gatherv_prefix [of "length ds" ds buf] by (simp add: Gatherv_def length_concat)

lemma sum_list_take_le: "sum_list (take k (c :: nat list)) \<le> sum_list c"
proof -
  have "sum_list c = sum_list (take k c) + sum_list (drop k c)"
    by (metis append_take_drop_id sum_list_append)
  then show ?thesis by simp
qed

lemma displs_Suc: "r < length c \<Longrightarrow> displs c (Suc r) = displs c r + c ! r"
  by (simp add: displs_def take_Suc_conv_app_nth)

lemma displs_block_le: "r < length c \<Longrightarrow> displs c r + c ! r \<le> sum_list c"
  using sum_list_take_le [of "Suc r" c] by (simp add: displs_Suc [symmetric]) (simp add: displs_def)

lemma length_Scatterv_block: "length (Scatterv_block buf c r) = c ! r"
  by (simp add: Scatterv_block_def)

text \<open>A block that lies inside the buffer is the slice of the buffer.\<close>

lemma Scatterv_block_slice:
  assumes "displs c r + c ! r \<le> length buf"
  shows "Scatterv_block buf c r = take (c ! r) (drop (displs c r) buf)"
proof (rule nth_equalityI)
  show "length (Scatterv_block buf c r) = length (take (c ! r) (drop (displs c r) buf))"
    using assms by (simp add: Scatterv_block_def)
  fix i assume "i < length (Scatterv_block buf c r)"
  then have "i < c ! r" by (simp add: Scatterv_block_def)
  then show "Scatterv_block buf c r ! i = take (c ! r) (drop (displs c r) buf) ! i"
    using assms by (simp add: Scatterv_block_def)
qed

lemma concat_Scatterv_blocks:
  "k \<le> length c \<Longrightarrow> sum_list c \<le> length buf \<Longrightarrow>
   concat (map (Scatterv_block buf c) [0..<k]) = take (displs c k) buf"
proof (induction k)
  case 0
  then show ?case by (simp add: displs_def)
next
  case (Suc k)
  then have k: "k < length c" by simp
  have in_buf: "displs c k + c ! k \<le> length buf"
    using displs_block_le [OF k] Suc.prems by simp
  have "concat (map (Scatterv_block buf c) [0..<k]) = take (displs c k) buf"
    using Suc by simp
  then have "concat (map (Scatterv_block buf c) [0..<Suc k])
             = take (displs c k) buf @ take (c ! k) (drop (displs c k) buf)"
    by (simp add: Scatterv_block_slice [OF in_buf])
  also have "\<dots> = take (displs c k + c ! k) buf"
    by (simp add: take_add)
  finally show ?case using k by (simp add: displs_Suc)
qed

lemma receive_into_exact:
  "length msg = length buf \<Longrightarrow> receive_into buf msg = Inr msg"
  by (simp add: receive_into_def)

subsection \<open>Gather and scatter\<close>

lemma gather_in_root_Some:
  "rank < length ds \<Longrightarrow> root < length ds \<Longrightarrow>
   gather_in_root self (map Some ds) root rank
     = (self, Inr (if rank = root then Some (concat ds) else None, map length ds))"
  by (simp add: gather_in_root_def all_reached_map_Some Gatherv_concat Let_def)

lemma scatter_local_explicit:
  "rank < length counts \<Longrightarrow> args ! root = (Some buf, Some counts, dt) \<Longrightarrow>
   fst (snd (args ! rank)) = Some counts \<Longrightarrow> snd (snd (args ! rank)) \<noteq> Unsigned \<Longrightarrow>
   scatter_local P root rank (args ! rank)
     = Inr (if rank = root then Some buf else None, counts, replicate (counts ! rank) (- 100))"
  by (cases "args ! rank"; cases "snd (snd (args ! rank))")
     (auto simp: scatter_local_def scatter_sendcounts_def ones_times_minus_100_def)

lemma scatter_from_root_explicit:
  assumes "length args = P" and "root < P" and "length counts = P"
    and "args ! root = (Some buf, Some counts, dt)"
    and "list_all (\<lambda>a. fst (snd a) = Some counts \<and> snd (snd a) \<noteq> Unsigned) args"
    and "rank < P"
  shows "scatter_from_root self args root rank = (self, Inr (Scatterv_block buf counts rank))"
proof -
  have each: "scatter_local P root r (args ! r)
     = Inr (if r = root then Some buf else None, counts, replicate (counts ! r) (- 100))"
    if "r < P" for r
    using assms that by (intro scatter_local_explicit) (auto simp: list_all_length)
  show ?thesis
    using assms each [of rank] each [of root]
    by (simp add: scatter_from_root_def Let_def receive_into_exact length_Scatterv_block)
qed

text \<open>
  For a floating or signed dtype: the root holds a buffer of \<open>N\<close> elements, every rank
  passes the same count vector of \<open>P\<close> entries that sum to \<open>N\<close>, and the ranks scatter
  from the root. When every rank then passes what its scatter returned to a gather at the
  same root, the root gets back the original buffer, and the counts.
\<close>

lemma scatter_gather_roundtrip:
  assumes "length args = P" and "root < P" and "length counts = P"
    and "sum_list counts = length buf"
    and "args ! root = (Some buf, Some counts, dt)"
    and "list_all (\<lambda>a. fst (snd a) = Some counts \<and> snd (snd a) \<noteq> Unsigned) args"
  shows "gather_in_root self'
           (map (\<lambda>r. returned (scatter_from_root (routers ! r) args root r)) [0..<P])
           root root
         = (self', Inr (Some buf, counts))"
proof -
  let ?blocks = "map (Scatterv_block buf counts) [0..<P]"
  have "map (\<lambda>r. returned (scatter_from_root (routers ! r) args root r)) [0..<P]
        = map (\<lambda>r. Some (Scatterv_block buf counts r)) [0..<P]"
    using assms by (simp add: scatter_from_root_explicit [where dt = dt] returned_def)
  then have datas: "map (\<lambda>r. returned (scatter_from_root (routers ! r) args root r)) [0..<P]
        = map Some ?blocks"
    by simp
  have cat: "concat ?blocks = buf"
    using assms concat_Scatterv_blocks [of P counts buf] by (simp add: displs_def)
  have lens: "map length ?blocks = counts"
    using assms by (auto simp: list_eq_iff_nth_eq length_Scatterv_block)
  have "gather_in_root self' (map Some ?blocks) root root
        = (self', Inr (if root = root then Some (concat ?blocks) else None, map length ?blocks))"
    using assms by (intro gather_in_root_Some) simp_all
  then have "gather_in_root self' (map Some ?blocks) root root
        = (self', Inr (Some (concat ?blocks), map length ?blocks))"
    by (simp only: if_True simp_thms)
  then have "gather_in_root self' (map Some ?blocks) root root = (self', Inr (Some buf, counts))"
    by (simp only: cat lens)
  then show ?thesis
    by (simp only: datas)
qed

lemma scatter_gather_roundtrip_example:
  "gather_in_root (init_router 4)
     (map (\<lambda>r. returned (scatter_from_root (replicate 4 (init_router 4) ! r)
                  [(Some [10, 11, 12, 13, 14, 15, 16, 17, 18, 19 :: int], Some [3, 1, 4, 2], Signed),
                   (None, Some [3, 1, 4, 2], Signed), (None, Some [3, 1, 4, 2], Signed),
                   (None, Some [3, 1, 4, 2], Signed)] 0 r)) [0..<4]) 0 0
   = (init_router 4, Inr (Some [10, 11, 12, 13, 14, 15, 16, 17, 18, 19], [3, 1, 4, 2]))"
  by (rule scatter_gather_roundtrip [where dt = Signed]) simp_all

text \<open>
  C5. In a gather where every rank passes an array and the root is a rank of the
  communicator, every rank returns \<open>(recvbuf, sendcounts)\<close>: \<open>sendcounts\<close> holds the
  element count of every rank's array, on every rank; \<open>recvbuf\<close> is \<open>None\<close> off the
  root, and at the root a buffer whose length is the sum of the counts.
\<close>

theorem gather_in_root_returns:
  assumes "rank < length ds" and "root < length ds"
  shows "\<exists>recvbuf sendcounts.
           gather_in_root self (map Some ds) root rank = (self, Inr (recvbuf, sendcounts))
         \<and> sendcounts = map length ds
         \<and> (if rank = root
              then \<exists>buf. recvbuf = Some buf \<and> length buf = sum_list sendcounts
              else recvbuf = None)"
  using assms by (simp add: gather_in_root_Some length_concat)

theorem gather_in_root_returns_witness:
  "(\<exists>recvbuf sendcounts.
      gather_in_root (init_router 3) (map Some [[1, 2, 3], [4], [5, 6 :: int]]) 0 0
        = (init_router 3, Inr (recvbuf, sendcounts))
      \<and> sendcounts = [3, 1, 2]
      \<and> (\<exists>buf. recvbuf = Some buf \<and> length buf = 6))
   \<and> (\<exists>recvbuf sendcounts.
      gather_in_root (init_router 3) (map Some [[1, 2, 3], [4], [5, 6 :: int]]) 0 2
        = (init_router 3, Inr (recvbuf, sendcounts))
      \<and> sendcounts = [3, 1, 2]
      \<and> recvbuf = None)"
  using gather_in_root_returns [of 0 "[[1, 2, 3], [4], [5, 6 :: int]]" 0 "init_router 3"]
        gather_in_root_returns [of 2 "[[1, 2, 3], [4], [5, 6 :: int]]" 0 "init_router 3"]
  by (simp add: numeral_eq_Suc)

text \<open>
  C4. Four ranks scatter a buffer of 10 unsigned integers from rank 0 with the counts
  3, 1, 4, 2 and the unsigned dtype. Line 288 multiplies the receive buffer by \<open>-100\<close>,
  which an unsigned dtype cannot hold: every rank raises OverflowError before
  \<open>Scatterv\<close>, and nothing is scattered that a gather could bring back.
\<close>

theorem scatter_unsigned_raises:
  "map (\<lambda>rank. snd (scatter_from_root (init_router 4)
          (replicate 4 (Some [0, 1, 2, 3, 4, 5, 6, 7, 8, 9 :: int], Some [3, 1, 4, 2], Unsigned))
          0 rank)) [0, 1, 2, 3]
   = [Inl (Raised OverflowError), Inl (Raised OverflowError),
      Inl (Raised OverflowError), Inl (Raised OverflowError)]"
  by code_simp

text \<open>
  C3. Four ranks scatter a buffer of 10 elements from rank 0 and no rank passes a count
  vector. The default counts are computed at the root only (lines 276-280). The root
  returns its block of \<open>10 // 4 = 2\<close> elements; on the ranks 1, 2 and 3 \<open>sendcounts\<close>
  is still \<open>None\<close> at line 288 and \<open>sendcounts[rank]\<close> raises TypeError.
\<close>

theorem scatter_default_counts_fails:
  "map (\<lambda>rank. snd (scatter_from_root (init_router 4)
          (replicate 4 (Some [0, 1, 2, 3, 4, 5, 6, 7, 8, 9 :: int], None, Signed)) 0 rank))
     [0, 1, 2, 3]
   = [Inr [0, 1], Inl (Raised TypeError), Inl (Raised TypeError), Inl (Raised TypeError)]"
  by code_simp

text \<open>
  C10. \<open>gather_in_root\<close> and \<open>scatter_from_root\<close> leave the Router as it was, whatever
  the arguments and the outcome.
\<close>

theorem gather_scatter_frame:
  "fst (gather_in_root self datas root rank) = self
   \<and> fst (scatter_from_root self args root' rank') = self"
  by (auto simp: gather_in_root_def scatter_from_root_def Let_def receive_into_def
           split: option.splits sum.splits prod.splits)

subsection \<open>Dispatch\<close>

text \<open>
  C2. \<open>route_data\<close> with the keyword \<open>broadcast\<close> raises NameError for
  \<open>method_keyword\<close>, not a ValueError that names the keyword. The Router is unchanged.
\<close>

theorem route_data_unrecognized:
  "route_data [init_router 2, init_router 2] ''broadcast''
     (Gather_world [Some [1 :: int], Some [2]] 0) 0
   = (init_router 2, Inl (Raised (NameError ''method_keyword'')))"
  by (simp add: route_data_def)

subsection \<open>The count table of a distribute\<close>


lemma fill_list_length: "length (fst (fill_list dest data i count)) = length count"
  by (induction dest data i count rule: fill_list.induct) auto

lemma fold_store_length: "length (fold (\<lambda>dest c. c[dest := n]) ds count) = length count"
  by (induction ds arbitrary: count) auto

lemma fill_all_length: "length (fst (fill_all ds n count)) = length count"
  by (simp add: fill_all_def fold_store_length)

lemma fill_destination_count_length:
  "length (fst (fill_destination_count self arg)) = length (destination_count self)"
  by (cases arg) (simp add: fill_destination_count_def Let_def fill_list_length fill_all_length
        split: payload.splits)

lemma fill_list_last:
  assumes "list_all (\<lambda>d. d < length count) dest" and "i + length dest \<le> length data"
  shows "snd (fill_list dest data i count) = None
       \<and> (\<forall>r. r \<notin> set dest \<longrightarrow> fst (fill_list dest data i count) ! r = count ! r)
       \<and> (\<forall>k<length dest. dest ! k \<notin> set (drop (Suc k) dest) \<longrightarrow>
              fst (fill_list dest data i count) ! (dest ! k) = length (data ! (i + k)))"
  using assms
proof (induction dest arbitrary: i count)
  case Nil
  then show ?case by simp
next
  case (Cons d rest)
  let ?c1 = "count[d := length (data ! i)]"
  have step: "fill_list (d # rest) data i count = fill_list rest data (Suc i) ?c1"
    using Cons.prems by simp
  have IH: "snd (fill_list rest data (Suc i) ?c1) = None
       \<and> (\<forall>r. r \<notin> set rest \<longrightarrow> fst (fill_list rest data (Suc i) ?c1) ! r = ?c1 ! r)
       \<and> (\<forall>k<length rest. rest ! k \<notin> set (drop (Suc k) rest) \<longrightarrow>
              fst (fill_list rest data (Suc i) ?c1) ! (rest ! k) = length (data ! (Suc i + k)))"
    using Cons.prems by (intro Cons.IH) simp_all
  have d: "d < length count" using Cons.prems by simp
  show ?case
  proof (intro conjI allI impI)
    show "snd (fill_list (d # rest) data i count) = None"
      using IH step by simp
  next
    fix r assume "r \<notin> set (d # rest)"
    then show "fst (fill_list (d # rest) data i count) ! r = count ! r"
      using IH step by simp
  next
    fix k assume k: "k < length (d # rest)"
      and last: "(d # rest) ! k \<notin> set (drop (Suc k) (d # rest))"
    show "fst (fill_list (d # rest) data i count) ! ((d # rest) ! k) = length (data ! (i + k))"
    proof (cases k)
      case 0
      then have "d \<notin> set rest" using last by simp
      then show ?thesis using IH step d 0 by simp
    next
      case (Suc k')
      then show ?thesis using IH step k last by simp
    qed
  qed
qed

text \<open>
  C8. With a payload list that covers the destination list and destinations that are
  ranks of the communicator, the count-fill step succeeds. The entry of a rank that is
  not listed is 0. The entry of a listed rank is the element count of the payload at the
  last position where the rank is listed: with duplicates the later payload replaces the
  earlier one, and nothing is added up.
\<close>

theorem destination_count_last_wins:
  assumes "list_all (\<lambda>d. d < length (destination_count self)) destination"
    and "length destination \<le> length data"
  shows "\<exists>count. fill_destination_count self (destination, DataList data, tag) = (count, None)
         \<and> length count = length (destination_count self)
         \<and> (\<forall>r<length count. r \<notin> set destination \<longrightarrow> count ! r = 0)
         \<and> (\<forall>k<length destination. destination ! k \<notin> set (drop (Suc k) destination) \<longrightarrow>
                count ! (destination ! k) = length (data ! k))"
proof -
  let ?c0 = "replicate (length (destination_count self)) (0::nat)"
  let ?res = "fill_list destination data 0 ?c0"
  have L: "snd ?res = None
       \<and> (\<forall>r. r \<notin> set destination \<longrightarrow> fst ?res ! r = ?c0 ! r)
       \<and> (\<forall>k<length destination. destination ! k \<notin> set (drop (Suc k) destination) \<longrightarrow>
              fst ?res ! (destination ! k) = length (data ! (0 + k)))"
    using assms by (intro fill_list_last) simp_all
  have eq: "fill_destination_count self (destination, DataList data, tag) = (fst ?res, None)"
    using L by (simp add: fill_destination_count_def prod_eq_iff)
  have len: "length (fst ?res) = length (destination_count self)"
    by (simp add: fill_list_length)
  show ?thesis
    using L eq len by auto
qed

theorem destination_count_last_wins_witness:
  "\<exists>count. fill_destination_count (init_router 3)
              ([1, 2, 1], DataList [[1, 2], [3, 4, 5], [6, 7, 8, 9 :: int]], 0) = (count, None)
     \<and> length count = 3 \<and> count ! 0 = 0 \<and> count ! 2 = 3 \<and> count ! 1 = 4"
proof -
  have h1: "list_all (\<lambda>d. d < length (destination_count (init_router 3))) [1, 2, 1]"
    by (simp add: init_router_def)
  have h2: "length [1, 2, 1 :: nat] \<le> length [[1, 2], [3, 4, 5], [6, 7, 8, 9 :: int]]"
    by simp
  from destination_count_last_wins [OF h1 h2, of 0]
  obtain count where c: "fill_destination_count (init_router 3)
              ([1, 2, 1], DataList [[1, 2], [3, 4, 5], [6, 7, 8, 9 :: int]], 0) = (count, None)"
    and l: "length count = length (destination_count (init_router 3))"
    and z: "\<forall>r<length count. r \<notin> set [1, 2, 1] \<longrightarrow> count ! r = 0"
    and w: "\<forall>k<length [1, 2, 1 :: nat]. [1, 2, 1] ! k \<notin> set (drop (Suc k) [1, 2, 1 :: nat]) \<longrightarrow>
                count ! ([1, 2, 1] ! k) = length ([[1, 2], [3, 4, 5], [6, 7, 8, 9 :: int]] ! k)"
    by blast
  have l3: "length count = 3" using l by (simp add: init_router_def)
  have "count ! 0 = 0" using z l3 by simp
  moreover have "count ! 2 = 3" using w [rule_format, of 1] by simp
  moreover have "count ! 1 = 4" using w [rule_format, of 2] by simp
  ultimately show ?thesis using c l3 by simp
qed
subsection \<open>Helper facts about the counts and the sends\<close>

lemma fill_list_replicate:
  "list_all (\<lambda>d. d < length count) dest \<Longrightarrow> i + length dest \<le> n \<Longrightarrow>
   fill_list dest (replicate n a) i count = (fold (\<lambda>d c. c[d := length a]) dest count, None)"
  by (induction dest arbitrary: i count) auto

lemma fill_list_replicate_fails:
  "\<not> list_all (\<lambda>d. d < length count) dest \<Longrightarrow> i + length dest \<le> n \<Longrightarrow>
   snd (fill_list dest (replicate n a) i count) = Some IndexError"
  by (induction dest arbitrary: i count) auto

lemma send_list_replicate:
  "i + length dest \<le> n \<Longrightarrow> send_list dest (replicate n a) i = send_same dest a"
  by (induction dest arbitrary: i) auto

lemma sends_broadcast:
  "sends (dest, DataList (replicate (length dest) a), tag) = sends (dest, DataArray a, tag)"
  by (simp add: sends_def send_list_replicate)

lemma filled_broadcast:
  "filled (fill_destination_count self (dest, DataList (replicate (length dest) a), tag))
   = filled (fill_destination_count self (dest, DataArray a, tag))"
proof (cases "list_all (\<lambda>d. d < length (destination_count self)) dest")
  case True
  then show ?thesis
    by (simp add: fill_destination_count_def fill_all_def fill_list_replicate)
next
  case False
  then have "snd (fill_list dest (replicate (length dest) a) 0
                    (replicate (length (destination_count self)) 0)) = Some IndexError"
    by (intro fill_list_replicate_fails) simp_all
  then show ?thesis using False
    by (auto simp: fill_destination_count_def fill_all_def filled_def split: prod.splits)
qed

lemma fill_broadcast:
  "list_all (\<lambda>d. d < length (destination_count self)) dest \<Longrightarrow>
   fill_destination_count self (dest, DataList (replicate (length dest) a), tag)
   = fill_destination_count self (dest, DataArray a, tag)"
  by (simp add: fill_destination_count_def fill_all_def fill_list_replicate)

lemma fold_store_keep:
  "d \<notin> set ds \<Longrightarrow> fold (\<lambda>dest c. c[dest := n]) ds count ! d = count ! d"
  by (induction ds arbitrary: count) auto

lemma fold_store_nth:
  "d \<in> set ds \<Longrightarrow> list_all (\<lambda>d. d < length count) ds \<Longrightarrow>
   fold (\<lambda>dest c. c[dest := n]) ds count ! d = n"
proof (induction ds arbitrary: count)
  case Nil
  then show ?case by simp
next
  case (Cons x xs)
  show ?case
  proof (cases "d \<in> set xs")
    case True
    then show ?thesis using Cons by simp
  next
    case False
    then have "d = x" using Cons.prems by simp
    then show ?thesis using False Cons.prems by (simp add: fold_store_keep)
  qed
qed

lemma wf_routers_nth:
  "wf_routers P routers \<Longrightarrow> r < P \<Longrightarrow>
   length (destination_count (routers ! r)) = P \<and> length (source_count (routers ! r)) = P"
  by (simp add: wf_routers_def wf_router_def list_all_length)

lemma fill_destination_count_state:
  "length (destination_count self) = length (destination_count self') \<Longrightarrow>
   fill_destination_count self arg = fill_destination_count self' arg"
  by (simp add: fill_destination_count_def)

lemma all_reached_length: "all_reached xs = Some ys \<Longrightarrow> length ys = length xs"
  by (induction xs arbitrary: ys rule: all_reached.induct) (auto split: option.splits)

lemma wait_all_lengths:
  "wait_all box sources bufs = Inr bufs' \<Longrightarrow> length sources = length bufs \<Longrightarrow>
   map length bufs' = map length bufs"
  by (induction box sources bufs arbitrary: bufs' rule: wait_all.induct)
     (auto simp: receive_into_def split: option.splits sum.splits if_splits)

lemma router_update_both:
  "(self :: router)\<lparr>destination_count := a, source_count := b\<rparr>
   = self'\<lparr>destination_count := a, source_count := b\<rparr>"
  by (cases self; cases self') simp

lemma send_list_dests: "map fst (send_list dest data i) = dest"
  by (induction dest arbitrary: i) auto

lemma send_same_dests: "map fst (send_same dest a) = dest"
  by (induction dest) auto

lemma sends_dests: "map fst (sends arg) = fst arg"
  by (cases arg) (simp add: sends_def send_list_dests send_same_dests split: payload.splits)

lemma filter_none: "r \<notin> fst ` set msgs \<Longrightarrow> filter (\<lambda>m. fst m = r) msgs = []"
  by (induction msgs) auto

lemma sum_filter_find:
  "distinct (map fst msgs) \<Longrightarrow>
   sum_list (map (\<lambda>m. length (snd m)) (filter (\<lambda>m. fst m = r) msgs))
     = (case find (\<lambda>m. fst m = r) msgs of None \<Rightarrow> 0 | Some m \<Rightarrow> length (snd m))"
  by (induction msgs) (auto simp: filter_none)

lemma fill_list_find:
  assumes "list_all (\<lambda>d. d < length count) dest" and "i + length dest \<le> length data"
    and "distinct dest"
  shows "fst (fill_list dest data i count) ! r
         = (case find (\<lambda>m. fst m = r) (send_list dest data i) of
              None \<Rightarrow> count ! r | Some m \<Rightarrow> length (snd m))"
  using assms
proof (induction dest arbitrary: i count)
  case Nil
  then show ?case by simp
next
  case (Cons d rest)
  let ?c1 = "count[d := length (data ! i)]"
  have step: "fill_list (d # rest) data i count = fill_list rest data (Suc i) ?c1"
    using Cons.prems by simp
  have v: "list_all (\<lambda>d. d < length ?c1) rest" "Suc i + length rest \<le> length data"
    using Cons.prems by simp_all
  show ?case
  proof (cases "d = r")
    case True
    then have "r \<notin> set rest" using Cons.prems by simp
    then have "fst (fill_list rest data (Suc i) ?c1) ! r = ?c1 ! r"
      using fill_list_last [OF v] by blast
    then show ?thesis using True step Cons.prems by simp
  next
    case False
    have "fst (fill_list rest data (Suc i) ?c1) ! r
          = (case find (\<lambda>m. fst m = r) (send_list rest data (Suc i)) of
               None \<Rightarrow> ?c1 ! r | Some m \<Rightarrow> length (snd m))"
      using Cons.prems v by (intro Cons.IH) simp_all
    then show ?thesis using False step by (simp split: option.splits)
  qed
qed

lemma find_send_same:
  "find (\<lambda>m. fst m = r) (send_same dest a) = (if r \<in> set dest then Some (r, a) else None)"
  by (induction dest) auto

lemma fill_all_find:
  assumes "list_all (\<lambda>d. d < length count) dest"
  shows "fst (fill_all dest (length a) count) ! r
         = (case find (\<lambda>m. fst m = r) (send_same dest a) of
              None \<Rightarrow> count ! r | Some m \<Rightarrow> length (snd m))"
  using assms by (simp add: fill_all_def find_send_same fold_store_nth fold_store_keep)

lemma fill_all_ok:
  "list_all (\<lambda>d. d < length count) dest \<Longrightarrow> snd (fill_all dest n count) = None"
  by (simp add: fill_all_def)

text \<open>
  For valid arguments with distinct destinations the count-fill step succeeds, and the
  entry of every rank is the number of elements that the sends address to it.
\<close>

lemma fill_destination_count_sent:
  assumes "valid_send_args P (args ! s)" and "distinct (fst (args ! s))"
    and "length (destination_count self) = P" and "r < P"
  shows "snd (fill_destination_count self (args ! s)) = None"
    and "fst (fill_destination_count self (args ! s)) ! r = sent_elements args s r"
proof -
  obtain dest data tag where a: "args ! s = (dest, data, tag)"
    by (cases "args ! s")
  have v: "list_all (\<lambda>d. d < length (replicate P (0::nat))) dest"
    using assms(1) a by (simp add: valid_send_args_def)
  have d: "distinct (map fst (sends (args ! s)))"
    using assms(2) by (simp add: sends_dests)
  have z: "replicate P (0::nat) ! r = 0"
    using assms(4) by simp
  show "snd (fill_destination_count self (args ! s)) = None"
  proof (cases data)
    case (DataList xs)
    then have "0 + length dest \<le> length xs"
      using assms(1) a by (simp add: valid_send_args_def)
    from fill_list_last [OF v this] show ?thesis
      using a DataList assms(3) by (simp add: fill_destination_count_def)
  next
    case (DataArray x)
    then show ?thesis
      using a v assms(3) by (simp add: fill_destination_count_def fill_all_ok)
  qed
  show "fst (fill_destination_count self (args ! s)) ! r = sent_elements args s r"
  proof (cases data)
    case (DataList xs)
    then have c: "0 + length dest \<le> length xs"
      using assms(1) a by (simp add: valid_send_args_def)
    have dd: "distinct dest" using assms(2) a by simp
    show ?thesis
      unfolding sent_elements_def sum_filter_find [OF d]
      using a DataList assms(3) z fill_list_find [OF v c dd, of r]
      by (simp add: fill_destination_count_def sends_def split: option.splits)
  next
    case (DataArray x)
    show ?thesis
      unfolding sent_elements_def sum_filter_find [OF d]
      using a DataArray assms(3) z fill_all_find [OF v, of x r]
      by (simp add: fill_destination_count_def sends_def split: option.splits)
  qed
qed

lemma wait_all_exact:
  "list_all (\<lambda>s. case box s of None \<Rightarrow> False | Some m \<Rightarrow> length m = f s) sources \<Longrightarrow>
   wait_all box sources (map (\<lambda>s. replicate (f s) 0) sources)
     = Inr (map (\<lambda>s. the (box s)) sources)"
  by (induction sources) (auto simp: receive_into_exact split: option.splits)

lemma where_nonzero_map:
  "where_nonzero (map f [0..<P]) = filter (\<lambda>s. f s \<noteq> 0) [0..<P]"
  unfolding where_nonzero_def by (rule filter_cong) simp_all

lemma sorted_where: "sorted_wrt (<) (filter Q [0..<(P::nat)])"
  by (rule sorted_wrt_filter) (simp add: sorted_wrt_upt)





subsection \<open>Sends that complete\<close>

lemma quiet_channel: "quiet net t \<Longrightarrow> channel net s d t = []"
  by (auto simp: quiet_def channel_def list_all_iff filter_empty_conv)

lemma send_loop_all:
  "list_all (\<lambda>m. length (snd m) \<le> eager \<or> taken (fst m)) msgs \<Longrightarrow>
   distinct (map fst msgs) \<Longrightarrow> list_all (\<lambda>d. d \<notin> fst ` set msgs) seen \<Longrightarrow>
   send_loop taken eager msgs seen = (msgs, None)"
proof (induction msgs arbitrary: seen)
  case Nil
  then show ?case by simp
next
  case (Cons m rest)
  have unseen: "list_all (\<lambda>d. d \<noteq> fst m) seen"
    using Cons.prems(3) by (auto simp: list_all_iff)
  have "list_all (\<lambda>d. d \<notin> fst ` set rest) (fst m # seen)"
    using Cons.prems(2,3) by (auto simp: list_all_iff)
  then have "send_loop taken eager rest (fst m # seen) = (rest, None)"
    using Cons.prems by (intro Cons.IH) simp_all
  then show ?case
    using Cons.prems(1) unseen by auto
qed

lemma find_distinct:
  "distinct (map fst msgs) \<Longrightarrow> m \<in> set msgs \<Longrightarrow> find (\<lambda>x. fst x = fst m) msgs = Some m"
  by (induction msgs) (auto simp: rev_image_eqI)

lemma first_filter_find:
  "(case map snd (filter Q msgs) of [] \<Rightarrow> None | x # later \<Rightarrow> Some x)
   = map_option snd (find Q msgs)"
  by (induction msgs) auto

text \<open>
  With valid arguments, distinct destinations and a common tag, and when no message with
  that tag is in flight from a rank to one that it sends elements to, every send of
  every rank completes: a message that is not empty is taken by the receive that its
  destination posts.
\<close>

lemma issue_all:
  assumes "wf_routers P routers" and "length args = P" and "s < P"
    and "list_all (valid_send_args P) args"
    and "list_all (\<lambda>a. distinct (fst a)) args"
    and "list_all (\<lambda>a. snd (snd a) = tag) args"
    and clear: "\<And>s d. s < P \<Longrightarrow> d < P \<Longrightarrow> sent_elements args s d \<noteq> 0 \<Longrightarrow>
                      channel net s d tag = []"
  shows "issue eager net routers args s = (sends (args ! s), None)"
proof -
  let ?count = "fst (fill_destination_count (routers ! s) (args ! s))"
  have v: "valid_send_args P (args ! s)" and d: "distinct (fst (args ! s))"
    and t: "snd (snd (args ! s)) = tag"
    using assms by (simp_all add: list_all_length)
  have l: "length (destination_count (routers ! s)) = P"
    using assms wf_routers_nth by blast
  have dm: "distinct (map fst (sends (args ! s)))"
    using d by (simp add: sends_dests)
  have each: "length (snd m) \<le> eager \<or> takes net args ?count s (fst m)"
    if m: "m \<in> set (sends (args ! s))" for m
  proof (cases "length (snd m) = 0")
    case True
    then show ?thesis by simp
  next
    case False
    have "fst m \<in> set (fst (args ! s))"
      using m sends_dests [of "args ! s"] by (metis image_eqI set_map)
    then have dest: "fst m < P"
      using v by (cases "args ! s") (auto simp: valid_send_args_def list_all_iff)
    have "sent_elements args s (fst m)
          = (case find (\<lambda>x. fst x = fst m) (sends (args ! s)) of
               None \<Rightarrow> 0 | Some x \<Rightarrow> length (snd x))"
      unfolding sent_elements_def using dm by (rule sum_filter_find)
    then have sent: "sent_elements args s (fst m) = length (snd m)"
      using find_distinct [OF dm m] by simp
    then have "?count ! fst m \<noteq> 0"
      using False fill_destination_count_sent(2) [OF v d l dest] by simp
    moreover have "snd (snd (args ! fst m)) = snd (snd (args ! s))"
      using assms(2,6) dest t by (simp add: list_all_length)
    moreover have "channel net s (fst m) (snd (snd (args ! s))) = []"
      using clear [OF assms(3) dest] sent False t by simp
    ultimately show ?thesis using dest assms(2) by (simp add: takes_def)
  qed
  show ?thesis
    unfolding issue_def
    by (rule send_loop_all) (use each dm in \<open>simp_all add: list_all_iff\<close>)
qed

text \<open>
  The outcome of a distribute under these conditions, in full: the sources are the
  ranks that send at least one element, and each buffer is the message sent.
\<close>

lemma send_recv_valid:
  assumes "wf_routers P routers" and "length args = P" and "rank < P"
    and "list_all (valid_send_args P) args"
    and "list_all (\<lambda>a. distinct (fst a)) args"
    and "list_all (\<lambda>a. snd (snd a) = tag) args"
    and clear: "\<And>s d. s < P \<Longrightarrow> d < P \<Longrightarrow> sent_elements args s d \<noteq> 0 \<Longrightarrow>
                      channel net s d tag = []"
  shows "snd (send_recv eager net routers args rank)
         = Inr (filter (\<lambda>s. sent_elements args s rank \<noteq> 0) [0..<P],
                map (\<lambda>s. the (map_option snd (find (\<lambda>m. fst m = rank) (sends (args ! s)))))
                  (filter (\<lambda>s. sent_elements args s rank \<noteq> 0) [0..<P]))"
    and "list_all (\<lambda>s. case find (\<lambda>m. fst m = rank) (sends (args ! s)) of
                          None \<Rightarrow> False
                        | Some m \<Rightarrow> length (snd m) = sent_elements args s rank)
           (filter (\<lambda>s. sent_elements args s rank \<noteq> 0) [0..<P])"
proof -
  define cnt where "cnt = (\<lambda>s. fst (fill_destination_count (routers ! s) (args ! s)))"
  let ?sc = "map (\<lambda>s. sent_elements args s rank) [0..<P]"
  let ?src = "filter (\<lambda>s. sent_elements args s rank \<noteq> 0) [0..<P]"
  let ?box = "\<lambda>s. map_option snd (find (\<lambda>m. fst m = rank) (sends (args ! s)))"
  have fill: "fill_destination_count (routers ! s) (args ! s) = (cnt s, None)"
    and cnt: "r < P \<Longrightarrow> cnt s ! r = sent_elements args s r" if "s < P" for s r
  proof -
    have v: "valid_send_args P (args ! s)" and d: "distinct (fst (args ! s))"
      using assms(2,4,5) that by (simp_all add: list_all_length)
    have l: "length (destination_count (routers ! s)) = P"
      using assms(1) that wf_routers_nth by blast
    show "fill_destination_count (routers ! s) (args ! s) = (cnt s, None)"
      using fill_destination_count_sent(1) [OF v d l] that
      by (simp add: prod_eq_iff cnt_def)
    show "r < P \<Longrightarrow> cnt s ! r = sent_elements args s r"
      using fill_destination_count_sent(2) [OF v d l] by (simp add: cnt_def)
  qed
  have lr: "length routers = P"
    using assms(1) by (simp add: wf_routers_def)
  have "map (\<lambda>(r, a). filled (fill_destination_count r a)) (zip routers args)
        = map (\<lambda>s. Some (cnt s)) [0..<P]"
    using assms(2) lr fill by (intro nth_equalityI) (simp_all add: filled_def)
  then have reached: "all_reached (map (\<lambda>(r, a). filled (fill_destination_count r a))
                        (zip routers args)) = Some (map cnt [0..<P])"
    by (simp only: all_reached_Some_comp)
  have sc: "Alltoall (map cnt [0..<P]) rank = ?sc"
    using assms(3) cnt by (simp add: Alltoall_def)
  have src: "where_nonzero ?sc = ?src"
    by (rule where_nonzero_map)
  have issued: "issue eager net routers args s = (sends (args ! s), None)" if "s < P" for s
    using assms(1,2) that assms(4,5,6) clear by (rule issue_all)
  have inbox: "inbox eager net routers args rank s = ?box s"
    if "s < P" and "sent_elements args s rank \<noteq> 0" for s
  proof -
    have "snd (snd (args ! s)) = snd (snd (args ! rank))"
      using assms(2,3,6) that by (simp add: list_all_length)
    moreover have "channel net s rank (snd (snd (args ! rank))) = []"
      using clear [OF that(1) assms(3) that(2)] assms(2,3,6) by (simp add: list_all_length)
    ultimately show ?thesis
      using issued [OF that(1)] by (simp add: inbox_def first_filter_find)
  qed
  show box: "list_all (\<lambda>s. case find (\<lambda>m. fst m = rank) (sends (args ! s)) of
                          None \<Rightarrow> False
                        | Some m \<Rightarrow> length (snd m) = sent_elements args s rank) ?src"
  proof (unfold list_all_iff, rule ballI)
    fix s assume "s \<in> set ?src"
    then have s: "s < P" and nz: "sent_elements args s rank \<noteq> 0"
      by simp_all
    have "distinct (map fst (sends (args ! s)))"
      using assms(2,5) s by (simp add: sends_dests list_all_length)
    then have "sent_elements args s rank
               = (case find (\<lambda>m. fst m = rank) (sends (args ! s)) of
                    None \<Rightarrow> 0 | Some m \<Rightarrow> length (snd m))"
      unfolding sent_elements_def by (rule sum_filter_find)
    then show "case find (\<lambda>m. fst m = rank) (sends (args ! s)) of
                 None \<Rightarrow> False | Some m \<Rightarrow> length (snd m) = sent_elements args s rank"
      using nz by (simp split: option.splits)
  qed
  have box': "list_all (\<lambda>s. case inbox eager net routers args rank s of None \<Rightarrow> False
                            | Some m \<Rightarrow> length m = sent_elements args s rank) ?src"
    using box inbox by (auto simp: list_all_iff split: option.splits)
  have bufs: "map (\<lambda>source. replicate (?sc ! source) (0::'a)) ?src
              = map (\<lambda>s. replicate (sent_elements args s rank) 0) ?src"
    by (rule map_cong) simp_all
  have wait: "wait_all (inbox eager net routers args rank) ?src
                (map (\<lambda>source. replicate (?sc ! source) (0::'a)) ?src)
              = Inr (map (\<lambda>s. the (inbox eager net routers args rank s)) ?src)"
    unfolding bufs using box' by (rule wait_all_exact)
  have same: "map (\<lambda>s. the (inbox eager net routers args rank s)) ?src = map (\<lambda>s. the (?box s)) ?src"
    by (rule map_cong) (simp_all add: inbox)
  have own: "snd (issue eager net routers args rank) = None"
    using issued [OF assms(3)] by simp
  show "snd (send_recv eager net routers args rank) = Inr (?src, map (\<lambda>s. the (?box s)) ?src)"
    using fill [OF assms(3)] reached sc src wait own same
    by (simp add: send_recv_def Let_def)
qed

subsection \<open>Sources and sizes of a distribute\<close>

text \<open>
  C1 (amended). On well-formed Routers, when every rank passes valid arguments whose
  destinations are pairwise distinct, all ranks use the same tag and no message with
  that tag is in flight, every rank returns from a distribute, whatever the eager limit.
  Its sources are the ranks that send it at least one element, in strictly ascending
  order, and the receive buffer paired with a source has exactly as many elements as
  that source sends to this rank.
\<close>

theorem distribute_sources_sizes:
  assumes "wf_routers P routers" and "length args = P" and "rank < P"
    and "list_all (valid_send_args P) args"
    and "list_all (\<lambda>a. distinct (fst a)) args"
    and "list_all (\<lambda>a. snd (snd a) = tag) args"
    and "quiet net tag"
  shows "\<exists>st sources recvbuff.
           send_recv eager net routers args rank = (st, Inr (sources, recvbuff))
         \<and> sources = filter (\<lambda>s. sent_elements args s rank \<noteq> 0) [0..<P]
         \<and> sorted_wrt (<) sources
         \<and> map length recvbuff = map (\<lambda>s. sent_elements args s rank) sources"
proof -
  let ?src = "filter (\<lambda>s. sent_elements args s rank \<noteq> 0) [0..<P]"
  let ?bufs = "map (\<lambda>s. the (map_option snd (find (\<lambda>m. fst m = rank) (sends (args ! s))))) ?src"
  have clear: "channel net s d tag = []" for s d
    using assms(7) by (rule quiet_channel)
  have out: "snd (send_recv eager net routers args rank) = Inr (?src, ?bufs)"
    using assms(1-6) clear by (rule send_recv_valid(1))
  have "list_all (\<lambda>s. case find (\<lambda>m. fst m = rank) (sends (args ! s)) of
                          None \<Rightarrow> False
                        | Some m \<Rightarrow> length (snd m) = sent_elements args s rank) ?src"
    using assms(1-6) clear by (rule send_recv_valid(2))
  then have lens: "map length ?bufs = map (\<lambda>s. sent_elements args s rank) ?src"
    by (auto simp: list_all_iff split: option.splits)
  obtain st where "send_recv eager net routers args rank = (st, Inr (?src, ?bufs))"
    using out by (cases "send_recv eager net routers args rank") simp
  then show ?thesis
    using lens sorted_where by blast
qed

theorem distribute_sources_sizes_witness:
  "\<exists>st sources recvbuff.
     send_recv 0 [] [init_router 3, init_router 3, init_router 3]
       [([1, 2], DataArray [7, 8 :: int], 5), ([2], DataList [[1]], 5),
        ([0, 1], DataList [[4], [5, 6, 7]], 5)] 1 = (st, Inr (sources, recvbuff))
     \<and> sources = [0, 2]
     \<and> sorted_wrt (<) sources
     \<and> map length recvbuff = [2, 3]"
  (is "\<exists>st sources recvbuff. send_recv 0 [] ?R ?A 1 = _ \<and> _ \<and> _ \<and> _")
proof -
  have "\<exists>st sources recvbuff.
           send_recv 0 [] ?R ?A 1 = (st, Inr (sources, recvbuff))
         \<and> sources = filter (\<lambda>s. sent_elements ?A s 1 \<noteq> 0) [0..<3]
         \<and> sorted_wrt (<) sources
         \<and> map length recvbuff = map (\<lambda>s. sent_elements ?A s 1) sources"
    by (rule distribute_sources_sizes [where tag = 5])
       (simp_all add: wf_routers_def wf_router_def init_router_def valid_send_args_def quiet_def)
  moreover have "filter (\<lambda>s. sent_elements ?A s 1 \<noteq> 0) [0..<3] = [0, 2]"
    by code_simp
  moreover have "map (\<lambda>s. sent_elements ?A s 1) [0, 2] = [2, 3]"
    by code_simp
  ultimately show ?thesis
    by metis
qed

text \<open>
  C1 as stated fails when a destination is listed twice: rank 0 sends to rank 1 an
  array of 2 elements and then one of 3 elements. The count table of rank 0 keeps the
  later size only, so rank 1 returns for source 0 a buffer of 3 elements, while rank 0
  sends it 5 elements.
\<close>

theorem distribute_duplicate_destination:
  "list_all (valid_send_args 2)
     [([1, 1], DataList [[1, 2], [3, 4, 5 :: int]], 0), ([], DataList [], 0)]
   \<and> send_recv 1024 [] [init_router 2, init_router 2]
       [([1, 1], DataList [[1, 2], [3, 4, 5 :: int]], 0), ([], DataList [], 0)] 1
     = (\<lparr>destination_count = [0, 0], source_count = [3, 0]\<rparr>, Inr ([0], [[1, 2, 0]]))
   \<and> sent_elements
       [([1, 1], DataList [[1, 2], [3, 4, 5 :: int]], 0), ([], DataList [], 0)] 0 1 = 5"
  by code_simp

subsection \<open>Order of the communication calls\<close>






subsection \<open>One array for every destination\<close>

lemma send_same_map: "send_same dest a = map (\<lambda>d. (d, a)) dest"
  by (induction dest) auto

text \<open>
  C6. A rank \<open>s\<close> passes a single array and a list of destinations that are ranks of the
  communicator. It sends the array itself to every listed destination, in the order of
  the list, and sets the count-table entry of every listed destination to the element
  count of the array. The call of every rank has the same outcome as in the world where
  \<open>s\<close> passes, instead of the array, a list with one copy of it per destination. And
  when the arguments of all ranks are valid with distinct destinations and a common tag,
  no message with that tag is in flight and the array is not empty, every listed
  destination returns from the call with \<open>s\<close> among its sources and the array as the
  buffer received from \<open>s\<close>.
\<close>

theorem broadcast_equivalence:
  assumes "wf_routers P routers" and "length args = P" and "s < P"
    and "args ! s = (dest, DataArray a, tag)"
    and "list_all (\<lambda>d. d < P) dest"
  shows "sends (args ! s) = map (\<lambda>d. (d, a)) dest
       \<and> (\<exists>count. fill_destination_count (routers ! s) (args ! s) = (count, None)
             \<and> list_all (\<lambda>d. count ! d = length a) dest)
       \<and> send_recv eager net routers
             (args[s := (dest, DataList (replicate (length dest) a), tag)]) rank
           = send_recv eager net routers args rank
       \<and> (list_all (valid_send_args P) args \<and> list_all (\<lambda>a. distinct (fst a)) args
            \<and> list_all (\<lambda>a. snd (snd a) = tag) args \<and> quiet net tag
            \<and> d \<in> set dest \<and> a \<noteq> [] \<longrightarrow>
          (\<exists>st sources recvbuff i.
              send_recv eager net routers args d = (st, Inr (sources, recvbuff))
            \<and> i < length sources \<and> sources ! i = s \<and> recvbuff ! i = a))"
proof (intro conjI impI)
  show "sends (args ! s) = map (\<lambda>d. (d, a)) dest"
    using assms(4) by (simp add: sends_def send_same_map)
next
  have len: "length (destination_count (routers ! s)) = P"
    using assms wf_routers_nth by blast
  have v: "list_all (\<lambda>d. d < length (replicate P (0::nat))) dest"
    using assms by simp
  have "list_all (\<lambda>d. fold (\<lambda>dest c. c[dest := length a]) dest (replicate P 0) ! d = length a) dest"
    unfolding list_all_iff using v by (auto intro: fold_store_nth)
  then show "\<exists>count. fill_destination_count (routers ! s) (args ! s) = (count, None)
             \<and> list_all (\<lambda>d. count ! d = length a) dest"
    using assms len by (simp add: fill_destination_count_def fill_all_def)
next
  let ?x = "(dest, DataList (replicate (length dest) a), tag)"
  let ?args = "args[s := ?x]"
  have len: "length (destination_count (routers ! s)) = P"
    using assms wf_routers_nth by blast
  have A: "fill_destination_count (routers ! r) (?args ! r)
           = fill_destination_count (routers ! r) (args ! r)" for r
  proof (cases "r = s")
    case True
    then show ?thesis using assms len by (simp add: fill_broadcast)
  next
    case False
    then show ?thesis by simp
  qed
  have B: "map (\<lambda>(r, a). filled (fill_destination_count r a)) (zip routers ?args)
           = map (\<lambda>(r, a). filled (fill_destination_count r a)) (zip routers args)"
    by (rule nth_equalityI) (simp_all add: A)
  have T: "snd (snd (?args ! r)) = snd (snd (args ! r))" for r
    using assms by (cases "r = s") simp_all
  have S: "sends (?args ! r) = sends (args ! r)" for r
    using assms by (cases "r = s") (simp_all add: sends_broadcast)
  have K: "takes net ?args = takes net args"
    by (intro ext) (simp add: takes_def T)
  have I: "issue eager net routers ?args = issue eager net routers args"
    by (intro ext) (simp only: issue_def A S K)
  have C: "inbox eager net routers ?args = inbox eager net routers args"
    by (intro ext) (simp only: inbox_def T I)
  show "send_recv eager net routers ?args rank = send_recv eager net routers args rank"
    by (simp only: send_recv_def Let_def A B I C)
next
  assume h: "list_all (valid_send_args P) args \<and> list_all (\<lambda>a. distinct (fst a)) args
            \<and> list_all (\<lambda>a. snd (snd a) = tag) args \<and> quiet net tag
            \<and> d \<in> set dest \<and> a \<noteq> []"
  let ?src = "filter (\<lambda>s. sent_elements args s d \<noteq> 0) [0..<P]"
  let ?box = "\<lambda>s. the (map_option snd (find (\<lambda>m. fst m = d) (sends (args ! s))))"
  have d: "d < P"
    using h assms(5) by (auto simp: list_all_iff)
  have out: "snd (send_recv eager net routers args d) = Inr (?src, map ?box ?src)"
    using assms(1,2) d h
    by (intro send_recv_valid(1) [where tag = tag]) (simp_all add: quiet_channel)
  have msgs: "sends (args ! s) = map (\<lambda>d. (d, a)) dest"
    using assms(4) by (simp add: sends_def send_same_map)
  have dm: "distinct (map fst (sends (args ! s)))"
    using h assms(2,3) by (simp add: sends_dests list_all_length)
  have "(d, a) \<in> set (sends (args ! s))"
    using h msgs by auto
  then have f: "find (\<lambda>m. fst m = d) (sends (args ! s)) = Some (d, a)"
    using find_distinct [OF dm, of "(d, a)"] by simp
  have "sent_elements args s d
        = (case find (\<lambda>m. fst m = d) (sends (args ! s)) of
             None \<Rightarrow> 0 | Some m \<Rightarrow> length (snd m))"
    unfolding sent_elements_def using dm by (rule sum_filter_find)
  then have "sent_elements args s d \<noteq> 0"
    using f h by simp
  then have "s \<in> set ?src"
    using assms(3) by simp
  then obtain i where i: "i < length ?src" "?src ! i = s"
    unfolding in_set_conv_nth by blast
  then have "map ?box ?src ! i = a"
    using f by simp
  moreover obtain st where "send_recv eager net routers args d = (st, Inr (?src, map ?box ?src))"
    using out by (cases "send_recv eager net routers args d") simp
  ultimately show "\<exists>st sources recvbuff i.
              send_recv eager net routers args d = (st, Inr (sources, recvbuff))
            \<and> i < length sources \<and> sources ! i = s \<and> recvbuff ! i = a"
    using i by blast
qed

theorem broadcast_equivalence_witness:
  "sends ([([1, 2], DataArray [7, 8 :: int], 5), ([2], DataList [[1]], 5),
           ([0, 1], DataList [[4], [5, 6, 7]], 5)] ! 0)
     = map (\<lambda>d. (d, [7, 8])) [1, 2]
   \<and> (\<exists>count. fill_destination_count ([init_router 3, init_router 3, init_router 3] ! 0)
                 ([([1, 2], DataArray [7, 8 :: int], 5), ([2], DataList [[1]], 5),
                   ([0, 1], DataList [[4], [5, 6, 7]], 5)] ! 0) = (count, None)
          \<and> list_all (\<lambda>d. count ! d = length [7, 8 :: int]) [1, 2])
   \<and> send_recv 0 [] [init_router 3, init_router 3, init_router 3]
       ([([1, 2], DataArray [7, 8 :: int], 5), ([2], DataList [[1]], 5),
         ([0, 1], DataList [[4], [5, 6, 7]], 5)]
          [0 := ([1, 2], DataList (replicate (length [1, 2 :: nat]) [7, 8]), 5)]) 1
     = send_recv 0 [] [init_router 3, init_router 3, init_router 3]
         [([1, 2], DataArray [7, 8 :: int], 5), ([2], DataList [[1]], 5),
          ([0, 1], DataList [[4], [5, 6, 7]], 5)] 1
   \<and> (\<exists>st sources recvbuff i.
          send_recv 0 [] [init_router 3, init_router 3, init_router 3]
            [([1, 2], DataArray [7, 8 :: int], 5), ([2], DataList [[1]], 5),
             ([0, 1], DataList [[4], [5, 6, 7]], 5)] 1 = (st, Inr (sources, recvbuff))
        \<and> i < length sources \<and> sources ! i = 0 \<and> recvbuff ! i = [7, 8])"
proof -
  let ?R = "[init_router 3, init_router 3, init_router 3]"
  let ?A = "[([1, 2 :: nat], DataArray [7, 8 :: int], 5 :: nat), ([2], DataList [[1]], 5),
             ([0, 1], DataList [[4], [5, 6, 7]], 5)]"
  have wf: "wf_routers 3 ?R"
    by (simp add: wf_routers_def wf_router_def init_router_def)
  have a: "?A ! 0 = ([1, 2], DataArray [7, 8], 5)" and l: "length ?A = 3"
    and s: "(0::nat) < 3" and v: "list_all (\<lambda>d. d < 3) [1, 2 :: nat]"
    by simp_all
  have h: "list_all (valid_send_args 3) ?A \<and> list_all (\<lambda>a. distinct (fst a)) ?A
            \<and> list_all (\<lambda>a. snd (snd a) = 5) ?A \<and> quiet ([] :: int message list) 5
            \<and> (1::nat) \<in> set [1, 2] \<and> [7, 8 :: int] \<noteq> []"
    by (simp add: valid_send_args_def quiet_def)
  from broadcast_equivalence [OF wf l s a v, of 0 "[]" 1 1] h
  show ?thesis
    by blast
qed

subsection \<open>No state is carried from one distribute to the next\<close>

lemma fill_list_dests:
  "snd (fill_list dest data i count) = None \<Longrightarrow> list_all (\<lambda>d. d < length count) dest"
  by (induction dest data i count rule: fill_list.induct) (auto split: if_splits)

lemma fill_destination_count_dests:
  "snd (fill_destination_count self arg) = None \<Longrightarrow>
   list_all (\<lambda>d. d < length (destination_count self)) (fst arg)"
proof (cases arg)
  case (fields dest data tag)
  assume ok: "snd (fill_destination_count self arg) = None"
  show ?thesis
  proof (cases data)
    case (DataList xs)
    then show ?thesis
      using ok fields fill_list_dests [of dest xs 0 "replicate (length (destination_count self)) 0"]
      by (simp add: fill_destination_count_def)
  next
    case (DataArray a)
    then show ?thesis
      using ok fields
      by (simp add: fill_destination_count_def fill_all_def Let_def split: if_splits)
  qed
qed

lemma all_reached_nth:
  "all_reached xs = Some ys \<Longrightarrow> i < length xs \<Longrightarrow> xs ! i = Some (ys ! i)"
proof (induction xs arbitrary: ys i rule: all_reached.induct)
  case 1
  then show ?case by simp
next
  case (2 xs)
  then show ?case by simp
next
  case (3 x xs)
  then show ?case by (cases i) (auto split: option.splits)
qed

lemma send_loop_cong:
  "list_all (\<lambda>m. taken (fst m) = taken' (fst m)) msgs \<Longrightarrow>
   send_loop taken eager msgs seen = send_loop taken' eager msgs seen"
  by (induction msgs arbitrary: seen) auto

lemma wait_all_cong:
  "list_all (\<lambda>s. box s = box' s) sources \<Longrightarrow>
   wait_all box sources bufs = wait_all box' sources bufs"
  by (induction box sources bufs rule: wait_all.induct)
     (auto split: option.splits sum.splits)

lemma where_nonzero_bound: "list_all (\<lambda>s. s < length count) (where_nonzero count)"
  by (simp add: where_nonzero_def list_all_iff)

text \<open>
  Two worlds of \<open>P\<close> ranks with the same destinations and payloads, each with a common
  tag, on well-formed Routers, and in which the same messages are in flight on every
  channel with the tag of the world: a rank has the same outcome in both.
\<close>

lemma send_recv_similar:
  assumes "wf_routers P routers" and "wf_routers P routers'"
    and "length args = P" and "length args' = P" and "rank < P"
    and same: "\<And>s. s < P \<Longrightarrow> fst (args' ! s) = fst (args ! s)
                              \<and> fst (snd (args' ! s)) = fst (snd (args ! s))"
    and tags: "\<And>s. s < P \<Longrightarrow> snd (snd (args ! s)) = t \<and> snd (snd (args' ! s)) = t'"
    and chan: "\<And>s d. s < P \<Longrightarrow> d < P \<Longrightarrow> channel net' s d t' = channel net s d t"
  shows "snd (send_recv eager net' routers' args' rank) = snd (send_recv eager net routers args rank)"
proof -
  have lr: "length routers = P" "length routers' = P"
    using assms(1,2) by (simp_all add: wf_routers_def)
  have F: "fill_destination_count (routers' ! s) (args' ! s)
           = fill_destination_count (routers ! s) (args ! s)" if "s < P" for s
  proof -
    have "length (destination_count (routers' ! s)) = length (destination_count (routers ! s))"
      using assms(1,2) that wf_routers_nth by metis
    then show ?thesis
      using same [OF that]
      by (cases "args ! s"; cases "args' ! s") (simp add: fill_destination_count_def)
  qed
  have B: "map (\<lambda>(r, a). filled (fill_destination_count r a)) (zip routers' args')
         = map (\<lambda>(r, a). filled (fill_destination_count r a)) (zip routers args)"
    using assms(3,4) lr F by (intro nth_equalityI) simp_all
  have S: "sends (args' ! s) = sends (args ! s)" if "s < P" for s
    using same [OF that] by (cases "args ! s"; cases "args' ! s") (simp add: sends_def)
  have I: "issue eager net' routers' args' s = issue eager net routers args s"
    if s: "s < P" and ok: "snd (fill_destination_count (routers ! s) (args ! s)) = None" for s
  proof -
    let ?count = "fst (fill_destination_count (routers ! s) (args ! s))"
    have "list_all (\<lambda>d. d < length (destination_count (routers ! s))) (fst (args ! s))"
      using ok by (rule fill_destination_count_dests)
    then have dests: "list_all (\<lambda>d. d < P) (map fst (sends (args ! s)))"
      using assms(1) s wf_routers_nth [of P routers s] by (simp add: sends_dests)
    have "list_all (\<lambda>m. takes net' args' ?count s (fst m) = takes net args ?count s (fst m))
            (sends (args ! s))"
      using dests tags [OF s] tags chan [OF s] assms(3,4)
      by (auto simp: list_all_iff takes_def)
    then have "send_loop (takes net' args' ?count s) eager (sends (args ! s)) []
               = send_loop (takes net args ?count s) eager (sends (args ! s)) []"
      by (rule send_loop_cong)
    then show ?thesis
      by (simp add: issue_def F [OF s] S [OF s])
  qed
  have X: "inbox eager net' routers' args' rank s = inbox eager net routers args rank s"
    if s: "s < P" and ok: "snd (fill_destination_count (routers ! s) (args ! s)) = None" for s
    using tags [OF s] tags [OF assms(5)] chan [OF s assms(5)] I [OF s ok]
    by (simp add: inbox_def)
  obtain count e where f: "fill_destination_count (routers ! rank) (args ! rank) = (count, e)"
    by (cases "fill_destination_count (routers ! rank) (args ! rank)")
  show ?thesis
  proof (cases e)
    case (Some x)
    then show ?thesis
      using f F [OF assms(5)] by (simp add: send_recv_def Let_def)
  next
    case None
    show ?thesis
    proof (cases "all_reached (map (\<lambda>(r, a). filled (fill_destination_count r a))
                                   (zip routers args))")
      case N: None
      then show ?thesis
        using f None F [OF assms(5)] B by (simp add: send_recv_def Let_def)
    next
      case (Some sendbufs)
      have ls: "length sendbufs = P"
        using all_reached_length [OF Some] assms(3) lr by simp
      have ok: "snd (fill_destination_count (routers ! s) (args ! s)) = None" if s: "s < P" for s
      proof -
        have "map (\<lambda>(r, a). filled (fill_destination_count r a)) (zip routers args) ! s
              = Some (sendbufs ! s)"
          using Some s assms(3) lr by (intro all_reached_nth) simp_all
        then show ?thesis
          using s assms(3) lr by (auto simp: filled_def split: prod.splits option.splits)
      qed
      let ?sc = "Alltoall sendbufs rank"
      have "list_all (\<lambda>s. s < P) (where_nonzero ?sc)"
        using where_nonzero_bound [of ?sc] ls by (simp add: Alltoall_def)
      then have "list_all (\<lambda>s. inbox eager net' routers' args' rank s
                             = inbox eager net routers args rank s) (where_nonzero ?sc)"
        using X ok by (auto simp: list_all_iff)
      then have W: "wait_all (inbox eager net' routers' args' rank) (where_nonzero ?sc) bufs
                    = wait_all (inbox eager net routers args rank) (where_nonzero ?sc) bufs"
        for bufs
        by (rule wait_all_cong)
      show ?thesis
        using f None Some F [OF assms(5)] B I [OF assms(5) ok [OF assms(5)]] W
        by (simp add: send_recv_def Let_def split: option.splits sum.splits)
    qed
  qed
qed

lemma send_recv_wf:
  assumes "wf_routers P routers" and "length args = P" and "rank < P"
  shows "wf_router P (fst (send_recv eager net routers args rank))"
proof -
  have l: "length (destination_count (routers ! rank)) = P"
          "length (source_count (routers ! rank)) = P"
    using assms wf_routers_nth by blast+
  have c: "length (fst (fill_destination_count (routers ! rank) (args ! rank))) = P"
    using l by (simp add: fill_destination_count_length)
  have a: "\<And>sendbufs. all_reached (map (\<lambda>(r, a). filled (fill_destination_count r a))
                (zip routers args)) = Some sendbufs \<Longrightarrow> length (Alltoall sendbufs rank) = P"
    using assms by (auto simp: Alltoall_def wf_routers_def dest: all_reached_length)
  show ?thesis
    using l c a
    by (auto simp: send_recv_def Let_def wf_router_def
             split: prod.splits option.splits sum.splits)
qed

lemma take_first_subset: "set (take_first c net) \<subseteq> set net"
  by (induction net) auto

lemma fold_take_first_subset: "set (fold take_first cs net) \<subseteq> set net"
proof (induction cs arbitrary: net)
  case Nil
  then show ?case by simp
next
  case (Cons c cs)
  have "set (fold take_first cs (take_first c net)) \<subseteq> set (take_first c net)"
    by (rule Cons.IH)
  then show ?case
    using take_first_subset [of c net] by auto
qed

text \<open>A call whose ranks all use the tag \<open>t\<close> leaves no message with another tag.\<close>

lemma in_flight_after_quiet:
  assumes "quiet net t'" and "length routers = P" and "length args = P"
    and "list_all (\<lambda>a. snd (snd a) = t) args" and "t' \<noteq> t"
  shows "quiet (in_flight_after eager net routers args) t'"
proof (cases "all_reached (map (\<lambda>(r, a). filled (fill_destination_count r a))
                               (zip routers args))")
  case None
  then show ?thesis using assms(1) by (simp add: in_flight_after_def)
next
  case (Some sendbufs)
  have ls: "length sendbufs = P"
    using all_reached_length [OF Some] assms(2,3) by simp
  let ?sent = "concat (map (\<lambda>s. map (\<lambda>m. (s, fst m, snd (snd (args ! s)), snd m))
                                   (fst (issue eager net routers args s))) [0..<P])"
  have tags: "snd (snd (args ! s)) = t" if "s < P" for s
    using assms(3,4) that by (simp add: list_all_length)
  have "fst (snd (snd m)) = t" if "m \<in> set ?sent" for m
    using that tags by auto
  then have "list_all (\<lambda>m. fst (snd (snd m)) \<noteq> t') ?sent"
    unfolding list_all_iff using assms(5) by blast
  then have "quiet (net @ ?sent) t'"
    using assms(1) by (simp add: quiet_def)
  then have "quiet (fold take_first cs (net @ ?sent)) t'" for cs
    using fold_take_first_subset [of cs "net @ ?sent"]
    by (auto simp: quiet_def list_all_iff)
  then show ?thesis
    using Some ls by (simp add: in_flight_after_def Let_def)
qed

lemma filter_take_first:
  "filter (\<lambda>m. (fst m, fst (snd m), fst (snd (snd m))) = c) (take_first c' net)
   = (if c' = c then tl (filter (\<lambda>m. (fst m, fst (snd m), fst (snd (snd m))) = c) net)
      else filter (\<lambda>m. (fst m, fst (snd m), fst (snd (snd m))) = c) net)"
  by (induction net) auto

text \<open>Every posted receive takes one message from its channel.\<close>

lemma filter_fold_take_first:
  "filter (\<lambda>m. (fst m, fst (snd m), fst (snd (snd m))) = c) (fold take_first cs net)
   = drop (count_list cs c) (filter (\<lambda>m. (fst m, fst (snd m), fst (snd (snd m))) = c) net)"
proof (induction cs arbitrary: net)
  case Nil
  then show ?case by simp
next
  case (Cons c' cs)
  show ?case
    by (simp add: Cons.IH filter_take_first drop_Suc)
qed

lemma channel_filter:
  "channel net s d t
   = map (\<lambda>m. snd (snd (snd m)))
       (filter (\<lambda>m. (fst m, fst (snd m), fst (snd (snd m))) = (s, d, t)) net)"
  by (simp add: channel_def)

lemma filter_dest_distinct:
  "distinct (map fst msgs) \<Longrightarrow> length (filter (\<lambda>m. fst m = d) msgs) \<le> Suc 0"
  by (induction msgs) (auto simp: filter_none)

lemma length_concat_one:
  "distinct xs \<Longrightarrow> list_all (\<lambda>x. x = s \<or> h x = []) xs \<Longrightarrow>
   length (concat (map h xs)) \<le> length (h s)"
  by (induction xs) (auto simp: list_all_iff)

text \<open>
  After a call with valid arguments, distinct destinations and the common tag \<open>t\<close> on a
  communicator without messages tagged \<open>t\<close>, no message tagged \<open>t\<close> is left in flight
  from a rank to one that it sends elements to: the only such message was taken by the
  receive posted for it.
\<close>

lemma in_flight_after_clear:
  assumes "wf_routers P routers" and "length args = P"
    and "list_all (valid_send_args P) args"
    and "list_all (\<lambda>a. distinct (fst a)) args"
    and "list_all (\<lambda>a. snd (snd a) = t) args"
    and "quiet net t"
    and "s < P" and "d < P" and "sent_elements args s d \<noteq> 0"
  shows "channel (in_flight_after eager net routers args) s d t = []"
proof -
  define cnt where "cnt = (\<lambda>s. fst (fill_destination_count (routers ! s) (args ! s)))"
  let ?on = "\<lambda>m :: 'a message. (fst m, fst (snd m), fst (snd (snd m))) = (s, d, t)"
  have clear: "channel net s d t = []" for s d
    using assms(6) by (rule quiet_channel)
  have tags: "snd (snd (args ! r)) = t" if "r < P" for r
    using assms(2,5) that by (simp add: list_all_length)
  have fill: "fill_destination_count (routers ! s) (args ! s) = (cnt s, None)"
    and cnt: "r < P \<Longrightarrow> cnt s ! r = sent_elements args s r" if "s < P" for s r
  proof -
    have v: "valid_send_args P (args ! s)" and d: "distinct (fst (args ! s))"
      using assms(2,3,4) that by (simp_all add: list_all_length)
    have l: "length (destination_count (routers ! s)) = P"
      using assms(1) that wf_routers_nth by blast
    show "fill_destination_count (routers ! s) (args ! s) = (cnt s, None)"
      using fill_destination_count_sent(1) [OF v d l] that
      by (simp add: prod_eq_iff cnt_def)
    show "r < P \<Longrightarrow> cnt s ! r = sent_elements args s r"
      using fill_destination_count_sent(2) [OF v d l] by (simp add: cnt_def)
  qed
  have lr: "length routers = P"
    using assms(1) by (simp add: wf_routers_def)
  have "map (\<lambda>(r, a). filled (fill_destination_count r a)) (zip routers args)
        = map (\<lambda>s. Some (cnt s)) [0..<P]"
    using assms(2) lr fill by (intro nth_equalityI) (simp_all add: filled_def)
  then have reached: "all_reached (map (\<lambda>(r, a). filled (fill_destination_count r a))
                        (zip routers args)) = Some (map cnt [0..<P])"
    by (simp only: all_reached_Some_comp)
  let ?sent = "concat (map (\<lambda>s. map (\<lambda>m. (s, fst m, snd (snd (args ! s)), snd m))
                                   (fst (issue eager net routers args s))) [0..<P])"
  let ?posted = "concat (map (\<lambda>r. map (\<lambda>s. (s, r, snd (snd (args ! r))))
                                     (where_nonzero (Alltoall (map cnt [0..<P]) r))) [0..<P])"
  have after: "in_flight_after eager net routers args = fold take_first ?posted (net @ ?sent)"
    using reached by (simp add: in_flight_after_def Let_def)
  have "s \<in> set (where_nonzero (Alltoall (map cnt [0..<P]) d))"
    using assms(7,8,9) cnt by (simp add: where_nonzero_def Alltoall_def)
  then have "(s, d, t) \<in> set ?posted"
    using assms(8) tags [OF assms(8)] by auto
  then have posted: "count_list ?posted (s, d, t) \<noteq> 0"
    by (simp add: count_list_0_iff)
  have "filter ?on net = []"
    using assms(6) by (auto simp: quiet_def list_all_iff filter_empty_conv)
  moreover have "length (filter ?on ?sent) \<le> Suc 0"
  proof -
    let ?h = "\<lambda>s'. filter ?on (map (\<lambda>m. (s', fst m, snd (snd (args ! s')), snd m))
                                   (fst (issue eager net routers args s')))"
    have "filter ?on ?sent = concat (map ?h [0..<P])"
      by (simp add: filter_concat comp_def)
    moreover have "length (concat (map ?h [0..<P])) \<le> length (?h s)"
      by (rule length_concat_one) (auto simp: list_all_iff filter_empty_conv)
    moreover have "length (?h s) \<le> Suc 0"
    proof -
      have "issue eager net routers args s = (sends (args ! s), None)"
        using assms(1,2,7,3,4,5) clear by (rule issue_all)
      moreover have "distinct (map fst (sends (args ! s)))"
        using assms(2,4,7) by (simp add: sends_dests list_all_length)
      ultimately show ?thesis
        using filter_dest_distinct [of "sends (args ! s)" d] tags [OF assms(7)]
        by (simp add: filter_map comp_def)
    qed
    ultimately show ?thesis by simp
  qed
  ultimately have "length (filter ?on (net @ ?sent)) \<le> Suc 0"
    by simp
  then have "drop (count_list ?posted (s, d, t)) (filter ?on (net @ ?sent)) = []"
    using posted by simp
  then have "filter ?on (fold take_first ?posted (net @ ?sent)) = []"
    by (simp only: filter_fold_take_first)
  then show ?thesis
    by (simp only: after channel_filter list.map)
qed

text \<open>
  C7 (amended). All ranks run a distribute with a common tag \<open>t\<close>, and then a second one
  with the same destinations and payloads and a common tag \<open>t'\<close>, on the Routers and with
  the messages in flight that the first call left; no message with either tag was in
  flight before. The second tag differs from the first, or it is the same tag and in the
  arguments every destination is a rank, a list payload has an array for every
  destination, and no rank lists a destination twice. Then the Routers left by the first
  call are well formed, and on every rank the second call has the outcome of the first:
  the same sources and the same receive buffers when it returns, the same failure
  otherwise. The scratch vectors carry nothing over: from any other well-formed content
  of the Routers the outcome is the same.
\<close>

theorem distribute_twice:
  assumes "wf_routers P routers" and "wf_routers P routers0"
    and "length args = P" and "rank < P"
    and "list_all (\<lambda>a. snd (snd a) = t) args"
    and "quiet net t" and "quiet net t'"
    and "t' \<noteq> t \<or> (list_all (valid_send_args P) args
                   \<and> list_all (\<lambda>a. distinct (fst a)) args)"
    and "routers' = map (\<lambda>r. fst (send_recv eager net routers args r)) [0..<P]"
    and "net' = in_flight_after eager net routers args"
  shows "wf_routers P routers'
       \<and> snd (send_recv eager net' routers' (retag t' args) rank)
           = snd (send_recv eager net routers args rank)
       \<and> snd (send_recv eager net routers0 args rank)
           = snd (send_recv eager net routers args rank)"
proof (intro conjI)
  have lr: "length routers = P"
    using assms(1) by (simp add: wf_routers_def)
  have tags: "snd (snd (args ! s)) = t" if "s < P" for s
    using assms(3,5) that by (simp add: list_all_length)
  show wf': "wf_routers P routers'"
    using assms by (simp add: wf_routers_def list_all_length send_recv_wf)
  show "snd (send_recv eager net' routers' (retag t' args) rank)
        = snd (send_recv eager net routers args rank)"
  proof (cases "t' = t")
    case False
    have q': "quiet net' t'"
      unfolding assms(10) using assms(7) lr assms(3,5) False by (rule in_flight_after_quiet)
    show ?thesis
    proof (rule send_recv_similar [where P = P and t = t and t' = t'])
      show "wf_routers P routers" "wf_routers P routers'" "length args = P" "rank < P"
        using assms wf' by simp_all
      show "length (retag t' args) = P"
        using assms(3) by (simp add: retag_def)
      show "fst (retag t' args ! s) = fst (args ! s)
            \<and> fst (snd (retag t' args ! s)) = fst (snd (args ! s))" if "s < P" for s
        using that assms(3) by (simp add: retag_def)
      show "snd (snd (args ! s)) = t \<and> snd (snd (retag t' args ! s)) = t'" if "s < P" for s
        using that assms(3) tags by (simp add: retag_def)
      show "channel net' s d t' = channel net s d t" for s d
        using q' assms(6) by (simp add: quiet_channel)
    qed
  next
    case True
    then have valid: "list_all (valid_send_args P) args"
      and dist: "list_all (\<lambda>a. distinct (fst a)) args"
      using assms(8) by simp_all
    have same: "retag t' args = args"
      unfolding retag_def using assms(5) True
      by (intro map_idI) (auto simp: list_all_iff)
    have clear: "channel net s d t = []" for s d
      using assms(6) by (rule quiet_channel)
    have clear': "channel net' s d t = []"
      if "s < P" "d < P" "sent_elements args s d \<noteq> 0" for s d
      unfolding assms(10)
      using assms(1,3) valid dist assms(5,6) that by (rule in_flight_after_clear)
    have "snd (send_recv eager net' routers' args rank)
          = Inr (filter (\<lambda>s. sent_elements args s rank \<noteq> 0) [0..<P],
                 map (\<lambda>s. the (map_option snd (find (\<lambda>m. fst m = rank) (sends (args ! s)))))
                   (filter (\<lambda>s. sent_elements args s rank \<noteq> 0) [0..<P]))"
      using wf' assms(3,4) valid dist assms(5) clear' by (rule send_recv_valid(1))
    moreover have "snd (send_recv eager net routers args rank)
          = Inr (filter (\<lambda>s. sent_elements args s rank \<noteq> 0) [0..<P],
                 map (\<lambda>s. the (map_option snd (find (\<lambda>m. fst m = rank) (sends (args ! s)))))
                   (filter (\<lambda>s. sent_elements args s rank \<noteq> 0) [0..<P]))"
      using assms(1,3,4) valid dist assms(5) clear by (rule send_recv_valid(1))
    ultimately show ?thesis
      by (simp only: same)
  qed
  show "snd (send_recv eager net routers0 args rank) = snd (send_recv eager net routers args rank)"
    by (rule send_recv_similar [where P = P and t = t and t' = t])
       (use assms tags in simp_all)
qed

theorem distribute_twice_witness:
  "snd (send_recv 0
          (in_flight_after 0 [] [init_router 3, init_router 3, init_router 3]
             [([1, 2], DataArray [7, 8 :: int], 5), ([2], DataList [[1]], 5),
              ([0, 1], DataList [[4], [5, 6, 7]], 5)])
          (map (\<lambda>r. fst (send_recv 0 [] [init_router 3, init_router 3, init_router 3]
             [([1, 2], DataArray [7, 8 :: int], 5), ([2], DataList [[1]], 5),
              ([0, 1], DataList [[4], [5, 6, 7]], 5)] r)) [0..<3])
          (retag 6 [([1, 2], DataArray [7, 8 :: int], 5), ([2], DataList [[1]], 5),
                    ([0, 1], DataList [[4], [5, 6, 7]], 5)]) 1)
   = Inr ([0, 2], [[7, 8], [5, 6, 7]])
   \<and> snd (send_recv 0
          (in_flight_after 0 [] [init_router 3, init_router 3, init_router 3]
             [([1, 2], DataArray [7, 8 :: int], 5), ([2], DataList [[1]], 5),
              ([0, 1], DataList [[4], [5, 6, 7]], 5)])
          (map (\<lambda>r. fst (send_recv 0 [] [init_router 3, init_router 3, init_router 3]
             [([1, 2], DataArray [7, 8 :: int], 5), ([2], DataList [[1]], 5),
              ([0, 1], DataList [[4], [5, 6, 7]], 5)] r)) [0..<3])
          (retag 5 [([1, 2], DataArray [7, 8 :: int], 5), ([2], DataList [[1]], 5),
                    ([0, 1], DataList [[4], [5, 6, 7]], 5)]) 1)
   = Inr ([0, 2], [[7, 8], [5, 6, 7]])
   \<and> snd (send_recv 0 []
            [\<lparr>destination_count = [9, 9, 9], source_count = [7, 7, 7]\<rparr>,
             \<lparr>destination_count = [1, 2, 3], source_count = [4, 5, 6]\<rparr>,
             \<lparr>destination_count = [8, 0, 8], source_count = [0, 3, 0]\<rparr>]
            [([1, 2], DataArray [7, 8 :: int], 5), ([2], DataList [[1]], 5),
             ([0, 1], DataList [[4], [5, 6, 7]], 5)] 1)
   = Inr ([0, 2], [[7, 8], [5, 6, 7]])"
proof -
  let ?R = "[init_router 3, init_router 3, init_router 3]"
  let ?Stale = "[\<lparr>destination_count = [9, 9, 9], source_count = [7, 7, 7]\<rparr>,
              \<lparr>destination_count = [1, 2, 3], source_count = [4, 5, 6]\<rparr>,
              \<lparr>destination_count = [8, 0, 8], source_count = [0, 3, 0]\<rparr>]"
  let ?A = "[([1, 2 :: nat], DataArray [7, 8 :: int], 5 :: nat), ([2], DataList [[1]], 5),
             ([0, 1], DataList [[4], [5, 6, 7]], 5)]"
  have wf: "wf_routers 3 ?R" and wf0: "wf_routers 3 ?Stale"
    by (simp_all add: wf_routers_def wf_router_def init_router_def)
  have l: "length ?A = 3" and k: "(1::nat) < 3"
    and tags: "list_all (\<lambda>a. snd (snd a) = 5) ?A"
    and q: "quiet ([] :: int message list) 5" "quiet ([] :: int message list) 6"
    and other: "(6::nat) \<noteq> 5 \<or> (list_all (valid_send_args 3) ?A
                                  \<and> list_all (\<lambda>a. distinct (fst a)) ?A)"
    and same: "(5::nat) \<noteq> 5 \<or> (list_all (valid_send_args 3) ?A
                                 \<and> list_all (\<lambda>a. distinct (fst a)) ?A)"
    by (simp_all add: quiet_def valid_send_args_def)
  have first: "snd (send_recv 0 [] ?R ?A 1) = Inr ([0, 2], [[7, 8], [5, 6, 7]])"
    by code_simp
  from distribute_twice [OF wf wf0 l k tags q other refl refl, of 0]
    distribute_twice [OF wf wf0 l k tags q(1) q(1) same refl refl, of 0] first
  show ?thesis
    by simp
qed

text \<open>
  C7 as stated fails when the second call uses the tag of the first and a destination is
  listed twice. Rank 0 sends to rank 1 arrays of 1, 5 and 3 elements. In the first call
  rank 1 receives the first of them in its buffer of 3 elements, and the two others stay
  in flight. In the second call the receive of rank 1 takes the array of 5 elements that
  was left over, which does not fit its buffer of 3: the call raises on rank 1.
\<close>

theorem distribute_twice_same_tag:
  "snd (send_recv 1024 [] [init_router 2, init_router 2]
          [([1, 1, 1], DataList [[1], [2, 3, 4, 5, 6], [7, 8, 9 :: int]], 0),
           ([], DataList [], 0)] 0)
     = Inr ([], [])
   \<and> snd (send_recv 1024 [] [init_router 2, init_router 2]
          [([1, 1, 1], DataList [[1], [2, 3, 4, 5, 6], [7, 8, 9 :: int]], 0),
           ([], DataList [], 0)] 1)
     = Inr ([0], [[1, 0, 0]])
   \<and> in_flight_after 1024 [] [init_router 2, init_router 2]
          [([1, 1, 1], DataList [[1], [2, 3, 4, 5, 6], [7, 8, 9 :: int]], 0),
           ([], DataList [], 0)]
     = [(0, 1, 0, [2, 3, 4, 5, 6]), (0, 1, 0, [7, 8, 9])]
   \<and> snd (send_recv 1024
          (in_flight_after 1024 [] [init_router 2, init_router 2]
             [([1, 1, 1], DataList [[1], [2, 3, 4, 5, 6], [7, 8, 9 :: int]], 0),
              ([], DataList [], 0)])
          [fst (send_recv 1024 [] [init_router 2, init_router 2]
                  [([1, 1, 1], DataList [[1], [2, 3, 4, 5, 6], [7, 8, 9 :: int]], 0),
                   ([], DataList [], 0)] 0),
           fst (send_recv 1024 [] [init_router 2, init_router 2]
                  [([1, 1, 1], DataList [[1], [2, 3, 4, 5, 6], [7, 8, 9 :: int]], 0),
                   ([], DataList [], 0)] 1)]
          [([1, 1, 1], DataList [[1], [2, 3, 4, 5, 6], [7, 8, 9 :: int]], 0),
           ([], DataList [], 0)] 1)
     = Inl (Raised MPIError)"
proof -
  let ?R = "[init_router 2, init_router 2]"
  let ?A = "[([1, 1, 1 :: nat], DataList [[1], [2, 3, 4, 5, 6], [7, 8, 9 :: int]], 0 :: nat),
             ([], DataList [], 0)]"
  have c0: "send_recv 1024 [] ?R ?A 0
            = (\<lparr>destination_count = [0, 3], source_count = [0, 0]\<rparr>, Inr ([], []))"
    by code_simp
  have c1: "send_recv 1024 [] ?R ?A 1
            = (\<lparr>destination_count = [0, 0], source_count = [3, 0]\<rparr>, Inr ([0], [[1, 0, 0]]))"
    by code_simp
  have n: "in_flight_after 1024 [] ?R ?A = [(0, 1, 0, [2, 3, 4, 5, 6]), (0, 1, 0, [7, 8, 9])]"
    by code_simp
  have c2: "snd (send_recv 1024 [(0, 1, 0, [2, 3, 4, 5, 6]), (0, 1, 0, [7, 8, 9])]
                   [\<lparr>destination_count = [0, 3], source_count = [0, 0]\<rparr>,
                    \<lparr>destination_count = [0, 0], source_count = [3, 0]\<rparr>] ?A 1)
            = Inl (Raised MPIError)"
    by code_simp
  show ?thesis
    by (simp only: c0 c1 n c2 fst_conv snd_conv simp_thms)
qed

end
